theory Spec2Isabelle
  imports Main
begin

section \<open>Python values\<close>

text \<open>
  A Python \<^verbatim>\<open>str\<close> is a sequence of Unicode code points, so it is modelled as a list of
  natural numbers (the code points); \<open>ascii\<close> embeds an ASCII literal of the source.
\<close>

type_synonym pystr = "nat list"

definition ascii :: "string \<Rightarrow> pystr" where
  "ascii s = map of_char s"

text \<open>
  The values stored in the dictionaries of the program: \<^verbatim>\<open>None\<close>, a \<^verbatim>\<open>str\<close> or an \<^verbatim>\<open>int\<close>.
  Equality of these values is Python's \<^verbatim>\<open>==\<close> on them, which is also what \<^verbatim>\<open>set\<close> and
  \<^verbatim>\<open>dict\<close> membership use.
\<close>

datatype pyval = PNone | PStr pystr | PInt int

text \<open>Exceptions are values; the payload is \<^verbatim>\<open>str(e)\<close>.\<close>

datatype error = Exception pystr

text \<open>
  The slice \<^verbatim>\<open>xs[:n]\<close>: the first \<open>n\<close> elements when \<open>n\<close> is not negative, everything but
  the last \<open>-n\<close> elements otherwise.
\<close>

definition slice_to :: "int \<Rightarrow> 'a list \<Rightarrow> 'a list" where
  "slice_to n xs = (if 0 \<le> n then take (nat n) xs else take (length xs - nat (- n)) xs)"

section \<open>Balanced retrieval (app/qa.py)\<close>

text \<open>A retrieved \<^verbatim>\<open>Document\<close> of the vector store: its text and its metadata dictionary.\<close>

record document =
  page_content :: pystr
  metadata :: "string \<rightharpoonup> pyval"

text \<open>\<^verbatim>\<open>d.get(key)\<close>: the value under the key, \<^verbatim>\<open>None\<close> when the key is absent.\<close>

definition dict_get :: "(string \<rightharpoonup> pyval) \<Rightarrow> string \<Rightarrow> pyval" where
  "dict_get d key = (case d key of None \<Rightarrow> PNone | Some v \<Rightarrow> v)"

text \<open>
  The candidate dictionary built for each document (qa.py, lines 42 to 49); it always has
  these six keys (\<open>text'\<close> is the key \<^verbatim>\<open>text\<close>), so \<^verbatim>\<open>c["source"]\<close> and \<^verbatim>\<open>c.get("source")\<close> agree on it.
\<close>

record cand =
  text' :: pystr
  source :: pyval
  pages :: pyval
  page :: pyval
  chunk_id :: pyval
  doc_hash :: pyval

definition cand_of :: "document \<Rightarrow> cand" where
  "cand_of d = \<lparr> text' = page_content d,
                 source = dict_get (metadata d) ''source'',
                 pages = dict_get (metadata d) ''pages'',
                 page = dict_get (metadata d) ''page'',
                 chunk_id = dict_get (metadata d) ''chunk_id'',
                 doc_hash = dict_get (metadata d) ''doc_hash'' \<rparr>"

text \<open>The grouping key \<^verbatim>\<open>(source, doc_hash)\<close> and the identity \<^verbatim>\<open>(source, doc_hash, chunk_id)\<close>.\<close>

definition doc_key :: "cand \<Rightarrow> pyval \<times> pyval" where
  "doc_key c = (source c, doc_hash c)"

definition chunk_key :: "cand \<Rightarrow> pyval \<times> pyval \<times> pyval" where
  "chunk_key c = (source c, doc_hash c, chunk_id c)"

text \<open>
  \<^verbatim>\<open>by_doc.setdefault(key, []).append(c)\<close> on a dictionary that keeps insertion order: the
  dictionary is the list of its items, a new key goes to the end.
\<close>

fun setdefault_append :: "('k \<times> 'v list) list \<Rightarrow> 'k \<Rightarrow> 'v \<Rightarrow> ('k \<times> 'v list) list" where
  "setdefault_append [] key c = [(key, [c])]"
| "setdefault_append ((key', items) # by_doc) key c =
     (if key' = key then (key', items @ [c]) # by_doc
      else (key', items) # setdefault_append by_doc key c)"

text \<open>The loop of lines 53 to 55.\<close>

fun group_by_doc :: "((pyval \<times> pyval) \<times> cand list) list \<Rightarrow> cand list
    \<Rightarrow> ((pyval \<times> pyval) \<times> cand list) list" where
  "group_by_doc by_doc [] = by_doc"
| "group_by_doc by_doc (c # cands) =
     group_by_doc (setdefault_append by_doc (doc_key c) c) cands"

text \<open>The loop of lines 59 and 60: \<^verbatim>\<open>balanced.extend(items[:per_doc])\<close> for each group.\<close>

fun take_per_doc :: "int \<Rightarrow> cand list \<Rightarrow> ((pyval \<times> pyval) \<times> cand list) list \<Rightarrow> cand list" where
  "take_per_doc per_doc balanced [] = balanced"
| "take_per_doc per_doc balanced ((key, items) # by_doc) =
     take_per_doc per_doc (balanced @ slice_to per_doc items) by_doc"

text \<open>The final loop, lines 72 to 79, with its state \<^verbatim>\<open>seen\<close> and \<^verbatim>\<open>dedup\<close>.\<close>

fun dedup_loop :: "(pyval \<times> pyval \<times> pyval) set \<Rightarrow> cand list \<Rightarrow> cand list \<Rightarrow> cand list" where
  "dedup_loop seen dedup [] = dedup"
| "dedup_loop seen dedup (c # final) =
     (if chunk_key c \<in> seen then dedup_loop seen dedup final
      else dedup_loop (insert (chunk_key c) seen) (dedup @ [c]) final)"

text \<open>Lines 51 to 81: everything after the candidates have been converted.\<close>

definition select_balanced :: "cand list \<Rightarrow> int \<Rightarrow> int \<Rightarrow> cand list" where
  "select_balanced cands k per_doc =
     (let by_doc = group_by_doc [] cands;
          balanced = take_per_doc per_doc [] by_doc;
          taken_ids = set (map chunk_key balanced);
          rest = filter (\<lambda>c. chunk_key c \<notin> taken_ids) cands;
          final = slice_to k balanced;
          final = (if int (length final) < k
                   then final @ slice_to (k - int (length final)) rest else final);
          dedup = dedup_loop {} [] final
      in slice_to k dedup)"

section \<open>Configuration (app/config.py)\<close>

text \<open>The module's globals, read from the environment when it is loaded.\<close>

record config =
  PROVIDER :: pystr
  OPENAI_MODEL :: pystr
  OPENAI_EMBEDDING_MODEL :: pystr
  OLLAMA_BASE_URL :: pystr
  OLLAMA_MODEL :: pystr
  OLLAMA_EMBEDDING_MODEL :: pystr
  USE_HF_EMBEDDINGS :: bool
  HF_EMBEDDINGS_MODEL :: pystr
  CHROMA_BASE_DIR :: pystr
  MOCK_MODE :: bool

text \<open>
  \<^verbatim>\<open>os.path.join(a, b)\<close> of \<^verbatim>\<open>posixpath\<close>: an absolute \<open>b\<close> replaces \<open>a\<close>, otherwise \<open>b\<close> is
  appended, after a separator unless \<open>a\<close> is empty or ends with one. Code point 47 is the
  separator.
\<close>

definition path_join :: "pystr \<Rightarrow> pystr \<Rightarrow> pystr" where
  "path_join a b =
     (if b \<noteq> [] \<and> hd b = 47 then b
      else if a = [] \<or> last a = 47 then a @ b
      else a @ [47] @ b)"

definition corpus_dir :: "config \<Rightarrow> pystr \<Rightarrow> pystr" where
  "corpus_dir cfg corpus_id = path_join (CHROMA_BASE_DIR cfg) corpus_id"

text \<open>
  Where an absolute path leads: its components from the root, with empty components and
  \<^verbatim>\<open>.\<close> skipped and \<^verbatim>\<open>..\<close> going one directory up (the parent of the root is the root).
  The program has no such function; it is the file system's reading of a path, needed to
  say that a path is inside or outside a directory.
\<close>

fun split_sep :: "pystr \<Rightarrow> pystr \<Rightarrow> pystr list" where
  "split_sep part [] = [part]"
| "split_sep part (c # cs) = (if c = 47 then part # split_sep [] cs else split_sep (part @ [c]) cs)"

fun walk :: "pystr list \<Rightarrow> pystr list \<Rightarrow> pystr list" where
  "walk dir [] = dir"
| "walk dir (p # ps) =
     (if p = [] \<or> p = [46] then walk dir ps
      else if p = [46, 46] then walk (butlast dir) ps
      else walk (dir @ [p]) ps)"

definition resolve :: "pystr \<Rightarrow> pystr list" where
  "resolve path = walk [] (split_sep [] path)"

definition inside :: "pystr \<Rightarrow> pystr \<Rightarrow> bool" where
  "inside base path = (take (length (resolve base)) (resolve path) = resolve base)"

section \<open>The capability providers\<close>

text \<open>
  The embedding model and the chat model are chosen from the configuration
  (\<^verbatim>\<open>_embedding_fn\<close> in app/store.py, \<^verbatim>\<open>_llm\<close> in app/qa.py). Building the object does not
  call the model; a failure to build it is counted with the call it is built for, which
  follows it immediately everywhere.
\<close>

datatype embedding =
    HuggingFaceEmbeddings pystr
  | OllamaEmbeddings pystr pystr
  | OpenAIEmbeddings pystr

datatype chat_model =
    ChatOllama pystr pystr
  | ChatOpenAI pystr

definition embedding_fn :: "config \<Rightarrow> embedding" where
  "embedding_fn cfg =
     (if USE_HF_EMBEDDINGS cfg then HuggingFaceEmbeddings (HF_EMBEDDINGS_MODEL cfg)
      else if PROVIDER cfg = ascii ''ollama''
      then OllamaEmbeddings (OLLAMA_EMBEDDING_MODEL cfg) (OLLAMA_BASE_URL cfg)
      else OpenAIEmbeddings (OPENAI_EMBEDDING_MODEL cfg))"

definition llm :: "config \<Rightarrow> chat_model" where
  "llm cfg =
     (if PROVIDER cfg = ascii ''ollama'' then ChatOllama (OLLAMA_MODEL cfg) (OLLAMA_BASE_URL cfg)
      else ChatOpenAI (OPENAI_MODEL cfg))"

text \<open>
  What the program does to the outside, in the order it does it: a similarity search on
  the index of a directory (\<^verbatim>\<open>get_db\<close> and \<^verbatim>\<open>get_relevant_documents\<close>, with \<open>k\<close> and
  \<open>fetch_k\<close>), a call of the chat model, a line printed, the construction of an index from
  texts, the embedding of one text, and \<^verbatim>\<open>persist\<close>.
\<close>

datatype event =
    Search embedding pystr pystr int int
  | Invoke chat_model pystr
  | Print pystr
  | From_texts embedding pystr
  | Embed embedding pystr
  | Persist pystr

text \<open>
  The collaborators are parameters of the model. Each either returns or raises:
  \<^item> the similarity search, from the embedding, the directory, the query, \<open>k\<close> and \<open>fetch_k\<close>;
  \<^item> the chat model, from the prompt to the content of its response;
  \<^item> \<^verbatim>\<open>Chroma.from_texts\<close>, which also tells the texts it has embedded by then;
  \<^item> the text splitter, from size, overlap, separators and text.
\<close>

type_synonym searcher = "embedding \<Rightarrow> pystr \<Rightarrow> pystr \<Rightarrow> int \<Rightarrow> int \<Rightarrow> error + document list"
type_synonym completer = "chat_model \<Rightarrow> pystr \<Rightarrow> error + pystr"
type_synonym pydict = "(string \<times> pyval) list"
type_synonym indexer =
  "embedding \<Rightarrow> pystr \<Rightarrow> pystr list \<Rightarrow> pydict list \<Rightarrow> (error + unit) \<times> pystr list"
type_synonym splitter = "int \<Rightarrow> int \<Rightarrow> pystr list \<Rightarrow> pystr \<Rightarrow> error + pystr list"

section \<open>Retrieval and answer (app/qa.py)\<close>

definition retrieve_context_balanced ::
    "config \<Rightarrow> searcher \<Rightarrow> pystr \<Rightarrow> pystr \<Rightarrow> int \<Rightarrow> int \<Rightarrow> (error + cand list) \<times> event list" where
  "retrieve_context_balanced cfg search corpus_id query k per_doc =
     (let emb = embedding_fn cfg;
          dir = corpus_dir cfg corpus_id;
          ev = [Search emb dir query (max k 12) (max (3 * k) 24)]
      in case search emb dir query (max k 12) (max (3 * k) 24) of
           Inl e \<Rightarrow> (Inl e, ev)
         | Inr docs \<Rightarrow> (Inr (select_balanced (map cand_of docs) k per_doc), ev))"

text \<open>\<^verbatim>\<open>str(v)\<close>, as an f-string formats a value.\<close>

fun digits :: "nat \<Rightarrow> pystr" where
  "digits n = (if n < 10 then [48 + n] else digits (n div 10) @ [48 + n mod 10])"

declare digits.simps [simp del]

definition str_int :: "int \<Rightarrow> pystr" where
  "str_int i = (if i < 0 then 45 # digits (nat (- i)) else digits (nat i))"

fun str :: "pyval \<Rightarrow> pystr" where
  "str PNone = ascii ''None''"
| "str (PStr s) = s"
| "str (PInt i) = str_int i"

fun join :: "pystr \<Rightarrow> pystr list \<Rightarrow> pystr" where
  "join sep [] = []"
| "join sep [x] = x"
| "join sep (x # y # ys) = x @ sep @ join sep (y # ys)"

text \<open>The candidate as the dictionary it is, for the caller.\<close>

definition cand_dict :: "cand \<Rightarrow> pydict" where
  "cand_dict c =
     [(''text'', PStr (text' c)), (''source'', source c), (''pages'', pages c),
      (''page'', page c), (''chunk_id'', chunk_id c), (''doc_hash'', doc_hash c)]"

text \<open>The debug lines of lines 142 to 145.\<close>

definition debug_line :: "cand \<Rightarrow> pystr" where
  "debug_line c =
     ascii ''['' @ str (source c) @ ascii '' | '' @ str (pages c) @ ascii ''] chunk=''
     @ str (chunk_id c) @ ascii '' -> '' @ slice_to 120 (text' c) @ ascii ''...''"

definition debug_prints :: "cand list \<Rightarrow> event list" where
  "debug_prints ctx =
     [Print (ascii ''=== CONTEXTO ENVIADO AL LLM ==='')] @ map (\<lambda>c. Print (debug_line c)) ctx
     @ [Print (ascii ''=== FIN DEL CONTEXTO ==='' @ [10])]"

definition context_str :: "cand list \<Rightarrow> pystr" where
  "context_str ctx =
     join [10, 10]
       (map (\<lambda>c. ascii ''['' @ str (source c) @ ascii '' | '' @ str (pages c) @ ascii '']''
                  @ [10] @ text' c) ctx)"

definition prompt :: "cand list \<Rightarrow> pystr \<Rightarrow> pystr" where
  "prompt ctx question =
     ascii ''Eres un asistente experto en an'' @ [225]
     @ ascii ''lisis de documentos PDF. Debes trabajar EXCLUSIVAMENTE con el contexto entregado. Si la informaci''
     @ [243] @ ascii ''n solicitada no est'' @ [225] @ ascii '' en el contexto, ind'' @ [237]
     @ ascii ''calo de forma clara.'' @ [10, 10]
     @ ascii ''Tu respuesta debe ser clara, natural y estructurada, evitando frases rob'' @ [243]
     @ ascii ''ticas. Adapta tu estilo seg'' @ [250] @ ascii ''n el tipo de solicitud:'' @ [10]
     @ ascii ''- Si se pide un RESUMEN: entrega un texto breve, coherente y f'' @ [225]
     @ ascii ''cil de leer.'' @ [10] @ ascii ''- Si se pide una COMPARACI'' @ [211]
     @ ascii ''N entre documentos: organiza las diferencias y similitudes en p'' @ [225]
     @ ascii ''rrafos o vi'' @ [241] @ ascii ''etas.'' @ [10] @ ascii ''- Si se pide una CLASIFICACI''
     @ [211] @ ascii ''N o agrupaci'' @ [243] @ ascii ''n por temas: genera categor'' @ [237]
     @ ascii ''as con t'' @ [237] @ ascii ''tulos claros y lista los elementos bajo cada una.''
     @ [10, 10] @ ascii ''=== CONTEXTO DISPONIBLE ==='' @ [10]
     @ context_str ctx
     @ [10, 10] @ ascii ''=== PREGUNTA ==='' @ [10]
     @ question
     @ [10, 10] @ ascii ''Al final de tu respuesta, incluye siempre 2'' @ [8211]
     @ ascii ''4 citas de apoyo en el formato: (Documento: <nombre>, p'' @ [225]
     @ ascii ''ginas: X'' @ [8211] @ ascii ''Y).''"

definition demo :: pystr where
  "demo = ascii ''Modo demo: respuesta simulada. Integraremos LLM real cuando desactives MOCK_MODE.''"

definition demo_ctx :: "pydict list" where
  "demo_ctx =
     [[(''text'', PStr (ascii ''Fragmento simulado'')), (''source'', PStr (ascii ''demo.pdf'')),
       (''pages'', PStr (ascii ''1-2'')), (''chunk_id'', PInt 0)]]"

definition no_information :: pystr where
  "no_information =
     ascii ''No encuentro informaci'' @ [243] @ ascii ''n relevante en los documentos cargados.''"

definition answer ::
    "config \<Rightarrow> searcher \<Rightarrow> completer \<Rightarrow> pystr \<Rightarrow> pystr
      \<Rightarrow> (error + pystr \<times> pydict list) \<times> event list" where
  "answer cfg search invoke corpus_id question =
     (if MOCK_MODE cfg then (Inr (demo, demo_ctx), [])
      else case retrieve_context_balanced cfg search corpus_id question 8 1 of
             (Inl e, evs) \<Rightarrow> (Inl e, evs)
           | (Inr ctx, evs) \<Rightarrow>
               if ctx = [] then (Inr (no_information, []), evs)
               else (let evs = evs @ debug_prints ctx @ [Invoke (llm cfg) (prompt ctx question)]
                     in case invoke (llm cfg) (prompt ctx question) of
                          Inl e \<Rightarrow> (Inl e, evs)
                        | Inr content \<Rightarrow> (Inr (content, map cand_dict ctx), evs)))"

section \<open>Ingestion (app/ingestion.py)\<close>

subsection \<open>Whitespace normalisation\<close>

text \<open>\<^verbatim>\<open>text.replace("\r", "\n")\<close>: each carriage return (13) becomes a newline (10).\<close>

definition replace_cr :: "pystr \<Rightarrow> pystr" where
  "replace_cr text = map (\<lambda>c. if c = 13 then 10 else c) text"

text \<open>
  \<^verbatim>\<open>re.sub(r"[ \t]+", " ", text)\<close>: scanning from the left, a space (32) or tab (9) starts a
  match that takes the whole run and is replaced by one space.
\<close>

definition blank :: "nat \<Rightarrow> bool" where
  "blank c = (c = 32 \<or> c = 9)"

function sub_blanks :: "pystr \<Rightarrow> pystr" where
  "sub_blanks [] = []"
| "sub_blanks (c # cs) =
     (if blank c then 32 # sub_blanks (dropWhile blank cs) else c # sub_blanks cs)"
  by pat_completeness auto
termination
  by (relation "measure length") (auto simp: le_imp_less_Suc length_dropWhile_le)

text \<open>
  \<^verbatim>\<open>re.sub(r"\n{3,}", "\n\n", text)\<close>: a newline followed by at least two more starts a
  match that takes the whole run and is replaced by two newlines; any other character is
  copied.
\<close>

function sub_newlines :: "pystr \<Rightarrow> pystr" where
  "sub_newlines [] = []"
| "sub_newlines (c # cs) =
     (if c = 10 \<and> 2 \<le> length (takeWhile (\<lambda>x. x = 10) cs)
      then 10 # 10 # sub_newlines (dropWhile (\<lambda>x. x = 10) cs)
      else c # sub_newlines cs)"
  by pat_completeness auto
termination
  by (relation "measure length") (auto simp: le_imp_less_Suc length_dropWhile_le)

text \<open>
  \<^verbatim>\<open>str.isspace\<close> on one code point, which is what \<^verbatim>\<open>str.strip()\<close> removes from both ends.
\<close>

definition is_space :: "nat \<Rightarrow> bool" where
  "is_space c =
     ((9 \<le> c \<and> c \<le> 13) \<or> (28 \<le> c \<and> c \<le> 32) \<or> c = 133 \<or> c = 160 \<or> c = 5760
      \<or> (8192 \<le> c \<and> c \<le> 8202) \<or> c = 8232 \<or> c = 8233 \<or> c = 8239 \<or> c = 8287 \<or> c = 12288)"

definition strip :: "pystr \<Rightarrow> pystr" where
  "strip s = rev (dropWhile is_space (rev (dropWhile is_space s)))"

text \<open>\<^verbatim>\<open>_normalize_whitespace\<close>.\<close>

definition normalize_whitespace :: "pystr \<Rightarrow> pystr" where
  "normalize_whitespace text = strip (sub_newlines (sub_blanks (replace_cr text)))"

text \<open>
  For comparison, the conversion of line endings in which a carriage return followed by a
  newline counts as one line ending and becomes one newline, like a lone carriage return.
\<close>

fun one_newline_per_ending :: "pystr \<Rightarrow> pystr" where
  "one_newline_per_ending [] = []"
| "one_newline_per_ending [c] = [if c = 13 then 10 else c]"
| "one_newline_per_ending (c # d # cs) =
     (if c = 13 \<and> d = 10 then 10 # one_newline_per_ending cs
      else (if c = 13 then 10 else c) # one_newline_per_ending (d # cs))"

text \<open>The normalisation with that conversion as its first step.\<close>

definition normalize_one_newline :: "pystr \<Rightarrow> pystr" where
  "normalize_one_newline text = strip (sub_newlines (sub_blanks (one_newline_per_ending text)))"

subsection \<open>Pages\<close>

text \<open>
  \<^verbatim>\<open>PdfReader\<close> is a parameter: it raises on the bytes, or gives the pages, each with what
  \<^verbatim>\<open>extract_text()\<close> does on it (after the attempt to decrypt with the empty password,
  whose own failures the code ignores): it raises, or returns \<^verbatim>\<open>None\<close> or a string.
\<close>

datatype extraction = Raises | Returns "pystr option"

type_synonym bytes = "nat list"
type_synonym pdf_reader = "bytes \<Rightarrow> error + extraction list"

text \<open>\<^verbatim>\<open>page.extract_text() or ""\<close> inside \<^verbatim>\<open>try\<close>, with \<^verbatim>\<open>text = ""\<close> in the handler.\<close>

definition extracted_text :: "extraction \<Rightarrow> pystr" where
  "extracted_text x = (case x of Raises \<Rightarrow> [] | Returns None \<Rightarrow> [] | Returns (Some t) \<Rightarrow> t)"

fun enumerate_pages :: "int \<Rightarrow> extraction list \<Rightarrow> (int \<times> pystr) list" where
  "enumerate_pages i [] = []"
| "enumerate_pages i (p # reader_pages) =
     (i + 1, normalize_whitespace (extracted_text p)) # enumerate_pages (i + 1) reader_pages"

definition extract_pages :: "pdf_reader \<Rightarrow> bytes \<Rightarrow> error + (int \<times> pystr) list" where
  "extract_pages reader file_bytes =
     (case reader file_bytes of Inl e \<Rightarrow> Inl e | Inr reader_pages \<Rightarrow> Inr (enumerate_pages 0 reader_pages))"

subsection \<open>Chunks and their metadata\<close>

text \<open>
  The variables \<^verbatim>\<open>doc_hash\<close> and \<^verbatim>\<open>pages\<close> of the source are written \<open>doc_hash'\<close> and
  \<open>pages'\<close> here, the plain names being fields of a candidate.
\<close>

definition chunk_page_text :: "splitter \<Rightarrow> pystr \<Rightarrow> int \<Rightarrow> int \<Rightarrow> error + pystr list" where
  "chunk_page_text split_text text chunk_size chunk_overlap =
     split_text chunk_size chunk_overlap [[10, 10], [10], [32], []] text"

definition chunk_meta :: "pystr \<Rightarrow> pystr \<Rightarrow> pystr \<Rightarrow> int \<Rightarrow> int \<Rightarrow> pydict" where
  "chunk_meta filename doc_hash' doc_id page_num local_chunk_id =
     [(''source'', PStr filename), (''doc_hash'', PStr doc_hash'), (''doc_id'', PStr doc_id),
      (''page'', PInt page_num), (''pages'', PStr (str_int page_num)),
      (''chunk_id'', PInt local_chunk_id)]"

text \<open>
  The state of the loops of \<^verbatim>\<open>build_chunks_from_pdf\<close>: \<^verbatim>\<open>texts\<close>, \<^verbatim>\<open>metas\<close> and
  \<^verbatim>\<open>local_chunk_id\<close>. First the inner loop over the chunks of one page (lines 124 to 134),
  then the loop over the pages (lines 120 to 134).
\<close>

type_synonym build_state = "pystr list \<times> pydict list \<times> int"

fun append_chunks :: "pystr \<Rightarrow> pystr \<Rightarrow> pystr \<Rightarrow> int \<Rightarrow> pystr list \<Rightarrow> build_state \<Rightarrow> build_state" where
  "append_chunks filename doc_hash' doc_id page_num [] st = st"
| "append_chunks filename doc_hash' doc_id page_num (ch # chunks) (texts, metas, local_chunk_id) =
     append_chunks filename doc_hash' doc_id page_num chunks
       (texts @ [ch], metas @ [chunk_meta filename doc_hash' doc_id page_num local_chunk_id],
        local_chunk_id + 1)"

fun chunk_pages :: "splitter \<Rightarrow> pystr \<Rightarrow> pystr \<Rightarrow> pystr \<Rightarrow> int \<Rightarrow> int \<Rightarrow> (int \<times> pystr) list
    \<Rightarrow> build_state \<Rightarrow> error + build_state" where
  "chunk_pages split_text filename doc_hash' doc_id chunk_size chunk_overlap [] st = Inr st"
| "chunk_pages split_text filename doc_hash' doc_id chunk_size chunk_overlap
       ((page_num, page_text) # pages') st =
     (if page_text = []
      then chunk_pages split_text filename doc_hash' doc_id chunk_size chunk_overlap pages' st
      else case chunk_page_text split_text page_text chunk_size chunk_overlap of
             Inl e \<Rightarrow> Inl e
           | Inr chunks \<Rightarrow>
               chunk_pages split_text filename doc_hash' doc_id chunk_size chunk_overlap pages'
                 (append_chunks filename doc_hash' doc_id page_num chunks st))"

definition placeholder_meta :: "pystr \<Rightarrow> pystr \<Rightarrow> pystr \<Rightarrow> pydict" where
  "placeholder_meta filename doc_hash' doc_id =
     [(''source'', PStr filename), (''doc_hash'', PStr doc_hash'), (''doc_id'', PStr doc_id),
      (''page'', PNone), (''pages'', PStr []), (''chunk_id'', PInt 0)]"

definition build_chunks_from_pdf ::
    "pdf_reader \<Rightarrow> splitter \<Rightarrow> bytes \<Rightarrow> pystr \<Rightarrow> pystr \<Rightarrow> int \<Rightarrow> int
      \<Rightarrow> error + pystr list \<times> pydict list" where
  "build_chunks_from_pdf reader split_text file_bytes filename doc_hash' chunk_size chunk_overlap =
     (case extract_pages reader file_bytes of
        Inl e \<Rightarrow> Inl e
      | Inr pages' \<Rightarrow>
          (let doc_id = slice_to 12 doc_hash'
           in case chunk_pages split_text filename doc_hash' doc_id chunk_size chunk_overlap
                     pages' ([], [], 0) of
                Inl e \<Rightarrow> Inl e
              | Inr (texts, metas, local_chunk_id) \<Rightarrow>
                  if texts = [] then Inr ([[]], [placeholder_meta filename doc_hash' doc_id])
                  else Inr (texts, metas)))"

text \<open>
  The chunks a page contributes: none when its text is empty, else those the splitter
  returns for it.
\<close>

definition page_chunks :: "splitter \<Rightarrow> int \<Rightarrow> int \<Rightarrow> int \<times> pystr \<Rightarrow> pystr list" where
  "page_chunks split_text chunk_size chunk_overlap p =
     (if snd p = [] then []
      else case chunk_page_text split_text (snd p) chunk_size chunk_overlap of
             Inl e \<Rightarrow> [] | Inr chunks \<Rightarrow> chunks)"

section \<open>The store (app/store.py)\<close>

text \<open>
  \<^verbatim>\<open>upsert_texts\<close>: the embedding object is built, \<^verbatim>\<open>Chroma.from_texts\<close> is called with the
  two lists as they are, then \<^verbatim>\<open>persist\<close>.
\<close>

definition upsert_texts ::
    "config \<Rightarrow> indexer \<Rightarrow> (pystr \<Rightarrow> error + unit) \<Rightarrow> pystr \<Rightarrow> pystr list \<Rightarrow> pydict list
      \<Rightarrow> (error + unit) \<times> event list" where
  "upsert_texts cfg from_texts persist corpus_id texts metadatas =
     (let emb = embedding_fn cfg;
          dir = corpus_dir cfg corpus_id;
          (vectordb, embedded) = from_texts emb dir texts metadatas;
          evs = From_texts emb dir # map (Embed emb) embedded
      in case vectordb of
           Inl e \<Rightarrow> (Inl e, evs)
         | Inr _ \<Rightarrow> (persist dir, evs @ [Persist dir]))"

text \<open>
  An index constructor that embeds every text it is given and stores it, whatever the
  metadata list is.
\<close>

definition embed_all :: indexer where
  "embed_all emb dir texts metadatas = (Inr (), texts)"

section \<open>Reset (app/main.py)\<close>

text \<open>
  The file system is a state \<open>'fs\<close> with the two operations the endpoint uses:
  \<^verbatim>\<open>os.path.exists\<close>, which never raises, and \<^verbatim>\<open>shutil.rmtree\<close>, which returns or raises and
  leaves a new state either way.
\<close>

definition reset_body ::
    "('fs \<Rightarrow> pystr \<Rightarrow> bool) \<Rightarrow> ('fs \<Rightarrow> pystr \<Rightarrow> (error + unit) \<times> 'fs) \<Rightarrow> pystr \<Rightarrow> pystr \<Rightarrow> 'fs
      \<Rightarrow> (error + pydict) \<times> 'fs" where
  "reset_body exists rmtree cid path fs =
     (let ok = [(''status'', PStr (ascii ''ok'')),
                (''message'', PStr (ascii ''Corpus '' @ cid @ ascii '' eliminado''))]
      in if exists fs path
         then (case rmtree fs path of
                 (Inl e, fs') \<Rightarrow> (Inl e, fs')
               | (Inr _, fs') \<Rightarrow> (Inr ok, fs'))
         else (Inr ok, fs))"

text \<open>The \<^verbatim>\<open>try\<close> around that body and its handler \<^verbatim>\<open>except Exception as e\<close>.\<close>

definition reset_corpus ::
    "config \<Rightarrow> ('fs \<Rightarrow> pystr \<Rightarrow> bool) \<Rightarrow> ('fs \<Rightarrow> pystr \<Rightarrow> (error + unit) \<times> 'fs) \<Rightarrow> pystr \<Rightarrow> 'fs
      \<Rightarrow> (error + pydict) \<times> 'fs" where
  "reset_corpus cfg exists rmtree cid fs =
     (let path = corpus_dir cfg cid
      in case reset_body exists rmtree cid path fs of
           (Inl (Exception msg), fs') \<Rightarrow>
             (Inr [(''status'', PStr (ascii ''error'')), (''message'', PStr msg)], fs')
         | (Inr response, fs') \<Rightarrow> (Inr response, fs'))"

section \<open>Example data\<close>

text \<open>The configuration when no variable of the environment is set (the defaults of app/config.py).\<close>

definition default_config :: config where
  "default_config =
     \<lparr> PROVIDER = ascii ''ollama'',
       OPENAI_MODEL = ascii ''gpt-4o-mini'',
       OPENAI_EMBEDDING_MODEL = ascii ''text-embedding-3-small'',
       OLLAMA_BASE_URL = ascii ''http://localhost:11434'',
       OLLAMA_MODEL = ascii ''mistral'',
       OLLAMA_EMBEDDING_MODEL = ascii ''nomic-embed-text'',
       USE_HF_EMBEDDINGS = True,
       HF_EMBEDDINGS_MODEL = ascii ''sentence-transformers/all-MiniLM-L6-v2'',
       CHROMA_BASE_DIR = ascii ''/app/data/chroma'',
       MOCK_MODE = False \<rparr>"

text \<open>A stored chunk of a document, as the ingestion writes its metadata.\<close>

definition example_doc :: "pystr \<Rightarrow> pystr \<Rightarrow> int \<Rightarrow> document" where
  "example_doc name hash n =
     \<lparr> page_content = ascii ''chunk'',
       metadata = [''source'' \<mapsto> PStr name, ''doc_hash'' \<mapsto> PStr hash, ''doc_id'' \<mapsto> PStr hash,
                   ''page'' \<mapsto> PInt 1, ''pages'' \<mapsto> PStr (ascii ''1''), ''chunk_id'' \<mapsto> PInt n] \<rparr>"

text \<open>A \<^verbatim>\<open>persist\<close> that succeeds.\<close>

definition persist_ok :: "pystr \<Rightarrow> error + unit" where
  "persist_ok dir = Inr ()"

section \<open>Properties of the answer operation\<close>

text \<open>
  Claim C9. When \<^verbatim>\<open>MOCK_MODE\<close> is true, \<open>answer\<close> returns the fixed pair of the demo answer and
  the demo context whatever the corpus, the question and the providers are, and nothing
  is done to the outside: no search, no embedding, no call of the chat model.
\<close>

theorem answer_mock_mode:
  assumes "MOCK_MODE cfg"
  shows "answer cfg search invoke corpus_id question = (Inr (demo, demo_ctx), [])
         \<and> answer cfg search invoke corpus_id question
             = answer cfg search' invoke' corpus_id' question'"
  using assms by (simp add: answer_def)

theorem answer_mock_mode_witness:
  "MOCK_MODE (default_config\<lparr>MOCK_MODE := True\<rparr>)
   \<and> answer (default_config\<lparr>MOCK_MODE := True\<rparr>) (\<lambda>emb dir query k fetch_k. Inr [])
       (\<lambda>m p. Inr [33]) [99] [113] = (Inr (demo, demo_ctx), [])
   \<and> answer (default_config\<lparr>MOCK_MODE := True\<rparr>) (\<lambda>emb dir query k fetch_k. Inr [])
       (\<lambda>m p. Inr [33]) [99] [113]
     = answer (default_config\<lparr>MOCK_MODE := True\<rparr>)
         (\<lambda>emb dir query k fetch_k. Inl (Exception [])) (\<lambda>m p. Inl (Exception [])) [100] [114]"
proof -
  have m: "MOCK_MODE (default_config\<lparr>MOCK_MODE := True\<rparr>)" by simp
  from answer_mock_mode [OF m] m show ?thesis by blast
qed

lemma select_balanced_Nil: "select_balanced [] k per_doc = []"
  by (simp add: select_balanced_def slice_to_def)

text \<open>
  Claim C7. When \<^verbatim>\<open>MOCK_MODE\<close> is false and the retrieval returns no candidate, \<open>answer\<close>
  returns the fixed message with an empty list, and the chat model is not called: the
  events are those of the retrieval, none of which is a call of the chat model.
\<close>

theorem answer_no_candidates:
  assumes "\<not> MOCK_MODE cfg"
    and "retrieve_context_balanced cfg search corpus_id question 8 1 = (Inr [], evs)"
  shows "answer cfg search invoke corpus_id question = (Inr (no_information, []), evs)
         \<and> (\<forall>m p. Invoke m p \<notin> set evs)"
  using assms
  by (auto simp: answer_def retrieve_context_balanced_def Let_def split: sum.splits)

theorem answer_no_candidates_witness:
  "\<not> MOCK_MODE default_config
   \<and> retrieve_context_balanced default_config (\<lambda>emb dir query k fetch_k. Inr []) [99] [113] 8 1
       = (Inr [], [Search (embedding_fn default_config) (corpus_dir default_config [99]) [113] 12 24])
   \<and> answer default_config (\<lambda>emb dir query k fetch_k. Inr []) (\<lambda>m p. Inr [33]) [99] [113]
       = (Inr (no_information, []),
          [Search (embedding_fn default_config) (corpus_dir default_config [99]) [113] 12 24])"
proof -
  have a: "\<not> MOCK_MODE default_config" by (simp add: default_config_def)
  have b: "retrieve_context_balanced default_config (\<lambda>emb dir query k fetch_k. Inr []) [99] [113] 8 1
       = (Inr [], [Search (embedding_fn default_config) (corpus_dir default_config [99]) [113] 12 24])"
    by (simp add: retrieve_context_balanced_def select_balanced_Nil)
  from answer_no_candidates [OF a b] a b show ?thesis by simp
qed

section \<open>Properties of the reset operation\<close>

text \<open>
  Claim C8. \<open>reset_corpus\<close> never raises: it always returns a response. When the directory
  of the corpus does not exist it returns the status \<^verbatim>\<open>ok\<close> and leaves the file system as it
  is; when the removal raises, it returns the status \<^verbatim>\<open>error\<close> with the message of the
  exception.
\<close>

theorem reset_corpus_never_raises:
  "(\<exists>response. fst (reset_corpus cfg exists rmtree cid fs) = Inr response)
   \<and> (\<not> exists fs (corpus_dir cfg cid) \<longrightarrow>
        reset_corpus cfg exists rmtree cid fs
          = (Inr [(''status'', PStr (ascii ''ok'')),
                  (''message'', PStr (ascii ''Corpus '' @ cid @ ascii '' eliminado''))], fs))
   \<and> (exists fs (corpus_dir cfg cid)
        \<and> rmtree fs (corpus_dir cfg cid) = (Inl (Exception msg), fs') \<longrightarrow>
        reset_corpus cfg exists rmtree cid fs
          = (Inr [(''status'', PStr (ascii ''error'')), (''message'', PStr msg)], fs'))"
  by (auto simp: reset_corpus_def reset_body_def Let_def
      split: prod.splits sum.splits error.splits)

theorem reset_corpus_never_raises_witness:
  "\<not> (\<lambda>fs p. p \<in> set fs) ([]::pystr list) (corpus_dir default_config [99])
   \<and> reset_corpus default_config (\<lambda>fs p. p \<in> set fs) (\<lambda>fs p. (Inr (), removeAll p fs)) [99] []
       = (Inr [(''status'', PStr (ascii ''ok'')),
               (''message'', PStr (ascii ''Corpus '' @ [99] @ ascii '' eliminado''))], [])
   \<and> (\<lambda>fs p. p \<in> set fs) [corpus_dir default_config [99]] (corpus_dir default_config [99])
   \<and> reset_corpus default_config (\<lambda>fs p. p \<in> set fs)
         (\<lambda>fs p. (Inl (Exception (ascii ''denied'')), fs)) [99] [corpus_dir default_config [99]]
       = (Inr [(''status'', PStr (ascii ''error'')), (''message'', PStr (ascii ''denied''))],
          [corpus_dir default_config [99]])"
  using reset_corpus_never_raises [of default_config "\<lambda>fs p. p \<in> set fs"
      "\<lambda>fs p. (Inr (), removeAll p fs)" "[99]" "[]"]
    reset_corpus_never_raises [of default_config "\<lambda>fs p. p \<in> set fs"
      "\<lambda>fs p. (Inl (Exception (ascii ''denied'')), fs)" "[99]" "[corpus_dir default_config [99]]"
      "ascii ''denied''" "[corpus_dir default_config [99]]"]
  by simp


section \<open>Properties of the balanced retrieval\<close>

lemma slice_to_length: "0 \<le> k \<Longrightarrow> int (length (slice_to k xs)) \<le> k"
  by (simp add: slice_to_def)

lemma slice_to_distinct: "distinct (map f xs) \<Longrightarrow> distinct (map f (slice_to n xs))"
  by (simp add: slice_to_def take_map [symmetric])

lemma dedup_loop_distinct:
  "distinct (map chunk_key dedup) \<Longrightarrow> chunk_key ` set dedup \<subseteq> seen
    \<Longrightarrow> distinct (map chunk_key (dedup_loop seen dedup final))"
proof (induction final arbitrary: seen dedup)
  case Nil
  then show ?case by simp
next
  case (Cons c final)
  show ?case
  proof (cases "chunk_key c \<in> seen")
    case True
    with Cons show ?thesis by simp
  next
    case False
    have "distinct (map chunk_key (dedup @ [c]))"
      using Cons.prems False by auto
    moreover have "chunk_key ` set (dedup @ [c]) \<subseteq> insert (chunk_key c) seen"
      using Cons.prems by auto
    ultimately show ?thesis
      using Cons.IH False by simp
  qed
qed

lemma select_balanced_distinct: "distinct (map chunk_key (select_balanced cands k per_doc))"
  by (simp add: select_balanced_def Let_def slice_to_distinct dedup_loop_distinct)

lemma select_balanced_length: "0 \<le> k \<Longrightarrow> int (length (select_balanced cands k per_doc)) \<le> k"
  by (simp add: select_balanced_def Let_def slice_to_length)

text \<open>
  Claim C1. Whatever the similarity search returns, also when it returns a chunk more than
  once, the list returned by \<open>retrieve_context_balanced\<close> has no two entries with the same
  \<^verbatim>\<open>(source, doc_hash, chunk_id)\<close>, and for a count \<open>k\<close> (an integer that is not negative) it has
  at most \<open>k\<close> entries.
\<close>

theorem retrieve_context_balanced_unique:
  assumes "fst (retrieve_context_balanced cfg search corpus_id query k per_doc) = Inr result"
  shows "distinct (map chunk_key result) \<and> (0 \<le> k \<longrightarrow> int (length result) \<le> k)"
  using assms
  by (auto simp: retrieve_context_balanced_def Let_def select_balanced_distinct
      select_balanced_length split: sum.splits)

lemma example_keys:
  "chunk_key (cand_of (example_doc name hash n)) = (PStr name, PStr hash, PInt n)"
  "doc_key (cand_of (example_doc name hash n)) = (PStr name, PStr hash)"
  by (simp_all add: chunk_key_def doc_key_def cand_of_def example_doc_def dict_get_def)

lemma select_balanced_example_repeated:
  "select_balanced
     (map cand_of [example_doc [97] [104] 0, example_doc [97] [104] 1, example_doc [97] [104] 1]) 8 1
   = map cand_of [example_doc [97] [104] 0, example_doc [97] [104] 1]"
  by (simp add: select_balanced_def slice_to_def example_keys)

theorem retrieve_context_balanced_unique_witness:
  "fst (retrieve_context_balanced default_config
         (\<lambda>emb dir query k fetch_k.
            Inr [example_doc [97] [104] 0, example_doc [97] [104] 1, example_doc [97] [104] 1])
         [99] [113] 8 1)
     = Inr (map cand_of [example_doc [97] [104] 0, example_doc [97] [104] 1])
   \<and> distinct (map chunk_key (map cand_of [example_doc [97] [104] 0, example_doc [97] [104] 1]))
   \<and> (0 \<le> (8::int)
        \<and> int (length (map cand_of [example_doc [97] [104] 0, example_doc [97] [104] 1])) \<le> 8)"
proof -
  have r: "fst (retrieve_context_balanced default_config
         (\<lambda>emb dir query k fetch_k.
            Inr [example_doc [97] [104] 0, example_doc [97] [104] 1, example_doc [97] [104] 1])
         [99] [113] 8 1)
     = Inr (map cand_of [example_doc [97] [104] 0, example_doc [97] [104] 1])"
    unfolding retrieve_context_balanced_def Let_def
    by (simp only: sum.case fst_conv select_balanced_example_repeated)
  from retrieve_context_balanced_unique [OF r] r show ?thesis by simp
qed

lemma setdefault_append_keys:
  "map fst (setdefault_append by_doc key c) =
     (if key \<in> set (map fst by_doc) then map fst by_doc else map fst by_doc @ [key])"
  by (induction by_doc) force+

lemma setdefault_append_items:
  "list_all (\<lambda>g. snd g \<noteq> [] \<and> list_all (\<lambda>x. f x = fst g) (snd g)) by_doc
    \<Longrightarrow> list_all (\<lambda>g. snd g \<noteq> [] \<and> list_all (\<lambda>x. f x = fst g) (snd g))
          (setdefault_append by_doc (f c) c)"
  by (induction by_doc) auto

lemma group_by_doc_keys_set:
  "set (map fst (group_by_doc by_doc cands)) = set (map fst by_doc) \<union> doc_key ` set cands"
proof (induction cands arbitrary: by_doc)
  case Nil
  then show ?case by simp
next
  case (Cons c cands)
  show ?case
    unfolding group_by_doc.simps Cons.IH setdefault_append_keys by force
qed

lemma group_by_doc_keys_distinct:
  "distinct (map fst by_doc) \<Longrightarrow> distinct (map fst (group_by_doc by_doc cands))"
proof (induction cands arbitrary: by_doc)
  case Nil
  then show ?case by simp
next
  case (Cons c cands)
  have "distinct (map fst (setdefault_append by_doc (doc_key c) c))"
    using Cons.prems by (simp add: setdefault_append_keys)
  then show ?case using Cons.IH by simp
qed

lemma group_by_doc_items:
  "list_all (\<lambda>g. snd g \<noteq> [] \<and> list_all (\<lambda>x. doc_key x = fst g) (snd g)) by_doc
    \<Longrightarrow> list_all (\<lambda>g. snd g \<noteq> [] \<and> list_all (\<lambda>x. doc_key x = fst g) (snd g))
          (group_by_doc by_doc cands)"
proof (induction cands arbitrary: by_doc)
  case Nil
  then show ?case by simp
next
  case (Cons c cands)
  show ?case
    using Cons.IH [OF setdefault_append_items [OF Cons.prems, of c]] by simp
qed

lemma take_per_doc_concat:
  "take_per_doc per_doc balanced by_doc = balanced @ concat (map (\<lambda>g. slice_to per_doc (snd g)) by_doc)"
  by (induction by_doc arbitrary: balanced) auto

lemma dedup_loop_keys:
  "chunk_key ` set (dedup_loop seen dedup final)
     = chunk_key ` set dedup \<union> (chunk_key ` set final - seen)"
proof (induction final arbitrary: seen dedup)
  case Nil
  then show ?case by simp
next
  case (Cons c final)
  show ?case
  proof (cases "chunk_key c \<in> seen")
    case True
    then show ?thesis by (auto simp: Cons.IH)
  next
    case False
    then show ?thesis by (auto simp: Cons.IH)
  qed
qed

lemma dedup_loop_length:
  "length (dedup_loop seen dedup final) \<le> length dedup + length final"
proof (induction final arbitrary: seen dedup)
  case Nil
  then show ?case by simp
next
  case (Cons c final)
  show ?case
    using Cons.IH [of seen dedup] Cons.IH [of "insert (chunk_key c) seen" "dedup @ [c]"]
    by auto
qed

lemma doc_key_of_chunk_key: "doc_key c = (fst (chunk_key c), fst (snd (chunk_key c)))"
  by (simp add: doc_key_def chunk_key_def)

lemma dedup_loop_doc_keys:
  "doc_key ` set (dedup_loop {} [] final) = doc_key ` set final"
proof -
  have "chunk_key ` set (dedup_loop {} [] final) = chunk_key ` set final"
    by (simp add: dedup_loop_keys)
  then have "(\<lambda>t. (fst t, fst (snd t))) ` chunk_key ` set (dedup_loop {} [] final)
      = (\<lambda>t. (fst t, fst (snd t))) ` chunk_key ` set final"
    by simp
  then show ?thesis
    by (simp add: image_image doc_key_of_chunk_key [symmetric])
qed

lemma two_groups:
  assumes "c \<in> set cands" "c' \<in> set cands" "doc_key c \<noteq> doc_key c'"
  shows "\<exists>k1 i1 k2 i2 rest. group_by_doc [] cands = (k1, i1) # (k2, i2) # rest \<and> k1 \<noteq> k2
      \<and> i1 \<noteq> [] \<and> i2 \<noteq> [] \<and> (\<forall>x \<in> set i1. doc_key x = k1) \<and> (\<forall>x \<in> set i2. doc_key x = k2)"
proof -
  let ?G = "group_by_doc [] cands"
  have keys: "set (map fst ?G) = doc_key ` set cands"
    using group_by_doc_keys_set [of "[]" cands] by simp
  have dist: "distinct (map fst ?G)"
    by (simp add: group_by_doc_keys_distinct)
  have items: "list_all (\<lambda>g. snd g \<noteq> [] \<and> list_all (\<lambda>x. doc_key x = fst g) (snd g)) ?G"
    by (rule group_by_doc_items) simp
  have in_G: "doc_key c \<in> set (map fst ?G)" "doc_key c' \<in> set (map fst ?G)"
    using keys assms by auto
  obtain g1 g2 rest where G: "?G = g1 # g2 # rest"
  proof (cases ?G)
    case Nil
    with in_G show ?thesis by simp
  next
    case (Cons g1 t)
    show ?thesis
    proof (cases t)
      case Nil
      with Cons in_G assms(3) show ?thesis by simp
    next
      case (Cons g2 rest)
      with \<open>?G = g1 # t\<close> that show ?thesis by simp
    qed
  qed
  have "fst g1 \<noteq> fst g2" using dist G by simp
  moreover have "snd g1 \<noteq> []" "snd g2 \<noteq> []"
    "\<forall>x \<in> set (snd g1). doc_key x = fst g1" "\<forall>x \<in> set (snd g2). doc_key x = fst g2"
    using items G by (simp_all add: list_all_iff)
  ultimately show ?thesis
    using G by (intro exI [of _ "fst g1"] exI [of _ "snd g1"] exI [of _ "fst g2"]
        exI [of _ "snd g2"] exI [of _ rest]) simp
qed

lemma select_balanced_two_documents:
  assumes two: "c \<in> set cands" "c' \<in> set cands" "doc_key c \<noteq> doc_key c'"
    and pd: "1 \<le> per_doc" and k: "2 * per_doc \<le> k"
  shows "\<exists>a \<in> set (select_balanced cands k per_doc). \<exists>b \<in> set (select_balanced cands k per_doc).
           doc_key a \<noteq> doc_key b"
proof -
  obtain k1 i1 k2 i2 rest where G: "group_by_doc [] cands = (k1, i1) # (k2, i2) # rest"
    and ne: "k1 \<noteq> k2" and i1: "i1 \<noteq> []" "\<forall>x \<in> set i1. doc_key x = k1"
    and i2: "i2 \<noteq> []" "\<forall>x \<in> set i2. doc_key x = k2"
    using two_groups [OF two] by blast
  define A where "A = take (nat per_doc) i1"
  define B where "B = take (nat per_doc) i2"
  define R where "R = concat (map (\<lambda>g. slice_to per_doc (snd g)) rest)"
  define balanced where "balanced = take_per_doc per_doc [] (group_by_doc [] cands)"
  have bal: "balanced = A @ B @ R"
    using pd by (simp add: balanced_def G take_per_doc_concat slice_to_def A_def B_def R_def)
  have A: "A \<noteq> []" "length A \<le> nat per_doc" "set A \<subseteq> set i1"
    using i1 pd by (auto simp: A_def dest: in_set_takeD)
  have B: "B \<noteq> []" "set B \<subseteq> set i2"
    using i2 pd by (auto simp: B_def dest: in_set_takeD)
  define final0 where "final0 = slice_to k balanced"
  have f0: "final0 = take (nat k) balanced"
    using pd k by (simp add: final0_def slice_to_def)
  have a_in: "hd A \<in> set final0"
  proof -
    have "balanced ! 0 = hd A" using A by (simp add: bal hd_conv_nth nth_append)
    moreover have "0 < nat k" using pd k by simp
    moreover have "0 < length balanced" using A by (simp add: bal)
    ultimately show ?thesis
      unfolding f0 by (metis in_set_conv_nth length_take min_less_iff_conj nth_take)
  qed
  have b_in: "hd B \<in> set final0"
  proof -
    have "balanced ! (length A) = hd B" using B by (simp add: bal hd_conv_nth nth_append)
    moreover have "length A < nat k" using A pd k by simp
    moreover have "length A < length balanced" using B by (simp add: bal)
    ultimately show ?thesis
      unfolding f0 by (metis in_set_conv_nth length_take min_less_iff_conj nth_take)
  qed
  define rest' where "rest' = filter (\<lambda>c. chunk_key c \<notin> set (map chunk_key balanced)) cands"
  define final where "final = (if int (length final0) < k
      then final0 @ slice_to (k - int (length final0)) rest' else final0)"
  have fin_sub: "set final0 \<subseteq> set final" by (auto simp: final_def)
  have fin_len: "int (length final) \<le> k"
    using pd k by (auto simp: final_def f0 slice_to_def)
  define dedup where "dedup = dedup_loop {} [] final"
  have "length dedup \<le> length final"
    using dedup_loop_length [of "{}" "[]" final] by (simp add: dedup_def)
  then have res: "slice_to k dedup = dedup"
    using fin_len pd k by (simp add: slice_to_def)
  have "select_balanced cands k per_doc = slice_to k dedup"
    by (simp add: select_balanced_def Let_def dedup_def final_def final0_def rest'_def
        balanced_def)
  with res have sel: "select_balanced cands k per_doc = dedup"
    by simp
  have dk: "doc_key ` set dedup = doc_key ` set final"
    by (simp add: dedup_def dedup_loop_doc_keys)
  have "doc_key (hd A) = k1" using A i1 by (metis hd_in_set subsetD)
  moreover have "doc_key (hd B) = k2" using B i2 by (metis hd_in_set subsetD)
  moreover have "doc_key (hd A) \<in> doc_key ` set dedup" "doc_key (hd B) \<in> doc_key ` set dedup"
    using a_in b_in fin_sub dk by auto
  ultimately obtain a b where "a \<in> set dedup" "b \<in> set dedup" "doc_key a = k1" "doc_key b = k2"
    by auto
  with ne show ?thesis
    unfolding sel by auto
qed

text \<open>
  Claim C2. When the candidates of the similarity search come from at least two documents
  (two of them differ in \<^verbatim>\<open>(source, doc_hash)\<close>), \<open>per_doc\<close> is at least 1 and \<open>k\<close> is at least
  \<open>2 * per_doc\<close>, the list returned by \<open>retrieve_context_balanced\<close> has candidates of at least
  two documents.
\<close>

theorem retrieve_context_balanced_two_documents:
  assumes "search (embedding_fn cfg) (corpus_dir cfg corpus_id) query (max k 12) (max (3 * k) 24)
             = Inr docs"
    and "c \<in> set (map cand_of docs)" and "c' \<in> set (map cand_of docs)"
    and "doc_key c \<noteq> doc_key c'"
    and "1 \<le> per_doc" and "2 * per_doc \<le> k"
  shows "\<exists>result. fst (retrieve_context_balanced cfg search corpus_id query k per_doc) = Inr result
           \<and> (\<exists>a \<in> set result. \<exists>b \<in> set result. doc_key a \<noteq> doc_key b)"
  using select_balanced_two_documents [OF assms(2-6)] assms(1)
  by (simp add: retrieve_context_balanced_def Let_def)

theorem retrieve_context_balanced_two_documents_witness:
  "\<exists>result.
     fst (retrieve_context_balanced default_config
           (\<lambda>emb dir query k fetch_k.
              Inr [example_doc [97] [104] 0, example_doc [97] [104] 1, example_doc [98] [105] 0])
           [99] [113] 8 1) = Inr result
     \<and> (\<exists>a \<in> set result. \<exists>b \<in> set result. doc_key a \<noteq> doc_key b)"
proof (rule retrieve_context_balanced_two_documents)
  show "(\<lambda>emb dir query k fetch_k.
            Inr [example_doc [97] [104] 0, example_doc [97] [104] 1, example_doc [98] [105] 0])
          (embedding_fn default_config) (corpus_dir default_config [99]) [113] (max 8 12)
          (max (3 * 8) 24)
        = Inr [example_doc [97] [104] 0, example_doc [97] [104] 1, example_doc [98] [105] 0]"
    by simp
  show "cand_of (example_doc [97] [104] 0)
      \<in> set (map cand_of [example_doc [97] [104] 0, example_doc [97] [104] 1, example_doc [98] [105] 0])"
    by simp
  show "cand_of (example_doc [98] [105] 0)
      \<in> set (map cand_of [example_doc [97] [104] 0, example_doc [97] [104] 1, example_doc [98] [105] 0])"
    by simp
  show "doc_key (cand_of (example_doc [97] [104] 0)) \<noteq> doc_key (cand_of (example_doc [98] [105] 0))"
    by (simp add: example_keys)
  show "1 \<le> (1::int)" by simp
  show "2 * 1 \<le> (8::int)" by simp
qed


section \<open>Properties of the ingestion\<close>

lemma upt_0_Suc: "[0..<Suc n] = 0 # map Suc [0..<n]"
  by (simp add: upt_conv_Cons map_Suc_upt del: upt_Suc)

lemma upt_0_add: "[0..<a + b] = [0..<a] @ map (\<lambda>j. a + j) [0..<b]"
  by (induction b) (simp_all add: add.assoc [symmetric])

lemma append_chunks_result:
  "append_chunks filename doc_hash' doc_id page_num chunks (texts, metas, i)
   = (texts @ chunks,
      metas @ map (\<lambda>j. chunk_meta filename doc_hash' doc_id page_num (i + int j)) [0..<length chunks],
      i + int (length chunks))"
proof (induction chunks arbitrary: texts metas i)
  case Nil
  then show ?case by simp
next
  case (Cons ch chunks)
  have "map (\<lambda>j. chunk_meta filename doc_hash' doc_id page_num (i + int j)) [0..<Suc (length chunks)]
      = chunk_meta filename doc_hash' doc_id page_num i
        # map (\<lambda>j. chunk_meta filename doc_hash' doc_id page_num (i + 1 + int j)) [0..<length chunks]"
    unfolding upt_0_Suc by (simp add: comp_def add.assoc)
  then show ?case
    by (simp add: Cons.IH add.assoc del: upt_Suc)
qed


lemma chunk_ids_split:
  "map (\<lambda>j. Some (PInt (i + int j))) [0..<a + b]
   = map (\<lambda>j. Some (PInt (i + int j))) [0..<a] @ map (\<lambda>j. Some (PInt (i + int a + int j))) [0..<b]"
  unfolding upt_0_add by (simp add: comp_def add.assoc)

lemma chunk_pages_result:
  assumes "chunk_pages split_text filename doc_hash' doc_id chunk_size chunk_overlap pages'
             (texts, metas, i) = Inr (texts2, metas2, i2)"
  shows "texts2 = texts @ concat (map (page_chunks split_text chunk_size chunk_overlap) pages')
    \<and> map (\<lambda>m. map_of m ''chunk_id'') metas2
        = map (\<lambda>m. map_of m ''chunk_id'') metas
          @ map (\<lambda>j. Some (PInt (i + int j)))
              [0..<length (concat (map (page_chunks split_text chunk_size chunk_overlap) pages'))]
    \<and> map (\<lambda>m. map_of m ''page'') metas2
        = map (\<lambda>m. map_of m ''page'') metas
          @ concat (map (\<lambda>p. replicate (length (page_chunks split_text chunk_size chunk_overlap p))
                                (Some (PInt (fst p)))) pages')"
  using assms
proof (induction pages' arbitrary: texts metas i)
  case Nil
  then show ?case by simp
next
  case (Cons p pages')
  obtain page_num page_text where p: "p = (page_num, page_text)" by (cases p)
  let ?rest = "concat (map (page_chunks split_text chunk_size chunk_overlap) pages')"
  show ?case
  proof (cases "page_text = []")
    case True
    then have pc: "page_chunks split_text chunk_size chunk_overlap p = []"
      by (simp add: page_chunks_def p)
    have "chunk_pages split_text filename doc_hash' doc_id chunk_size chunk_overlap pages'
        (texts, metas, i) = Inr (texts2, metas2, i2)"
      using Cons.prems p True by simp
    from Cons.IH [OF this] show ?thesis
      by (simp add: pc)
  next
    case False
    with Cons.prems p obtain chunks where
      c: "chunk_page_text split_text page_text chunk_size chunk_overlap = Inr chunks"
      by (cases "chunk_page_text split_text page_text chunk_size chunk_overlap") auto
    have pc: "page_chunks split_text chunk_size chunk_overlap p = chunks"
      using False c p by (simp add: page_chunks_def)
    have fp: "fst p = page_num" by (simp add: p)
    have "chunk_pages split_text filename doc_hash' doc_id chunk_size chunk_overlap pages'
        (texts @ chunks,
         metas @ map (\<lambda>j. chunk_meta filename doc_hash' doc_id page_num (i + int j)) [0..<length chunks],
         i + int (length chunks)) = Inr (texts2, metas2, i2)"
      using Cons.prems p False c by (simp add: append_chunks_result)
    from Cons.IH [OF this]
    have 1: "texts2 = (texts @ chunks) @ ?rest"
      and 2: "map (\<lambda>m. map_of m ''chunk_id'') metas2
        = map (\<lambda>m. map_of m ''chunk_id'')
            (metas @ map (\<lambda>j. chunk_meta filename doc_hash' doc_id page_num (i + int j)) [0..<length chunks])
          @ map (\<lambda>j. Some (PInt (i + int (length chunks) + int j))) [0..<length ?rest]"
      and 3: "map (\<lambda>m. map_of m ''page'') metas2
        = map (\<lambda>m. map_of m ''page'')
            (metas @ map (\<lambda>j. chunk_meta filename doc_hash' doc_id page_num (i + int j)) [0..<length chunks])
          @ concat (map (\<lambda>p. replicate (length (page_chunks split_text chunk_size chunk_overlap p))
                                (Some (PInt (fst p)))) pages')"
      by blast+
    have a: "texts2 = texts @ concat (map (page_chunks split_text chunk_size chunk_overlap) (p # pages'))"
      using 1 by (simp add: pc)
    have b: "map (\<lambda>m. map_of m ''chunk_id'') metas2
        = map (\<lambda>m. map_of m ''chunk_id'') metas
          @ map (\<lambda>j. Some (PInt (i + int j)))
              [0..<length (concat (map (page_chunks split_text chunk_size chunk_overlap) (p # pages')))]"
      using 2 by (simp add: pc chunk_ids_split chunk_meta_def comp_def)
    have c: "map (\<lambda>m. map_of m ''page'') metas2
        = map (\<lambda>m. map_of m ''page'') metas
          @ concat (map (\<lambda>p. replicate (length (page_chunks split_text chunk_size chunk_overlap p))
                                (Some (PInt (fst p)))) (p # pages'))"
      using 3 by (simp add: pc fp chunk_meta_def comp_def map_replicate_const)
    from a b c show ?thesis by blast
  qed
qed

lemma chunk_pages_nothing:
  assumes "\<forall>p \<in> set pages'. snd p = []"
  shows "chunk_pages split_text filename doc_hash' doc_id chunk_size chunk_overlap pages' st = Inr st"
  using assms by (induction pages') auto

text \<open>
  Claim C5. When every page of the PDF has empty text after extraction, so that the
  document produces no chunk, \<open>build_chunks_from_pdf\<close> returns exactly one placeholder: the
  empty text, with the metadata \<^verbatim>\<open>page = None\<close>, \<^verbatim>\<open>pages = ""\<close> and \<^verbatim>\<open>chunk_id = 0\<close>, and with the
  file name, the hash and the \<^verbatim>\<open>doc_id\<close> (the first 12 characters of the hash) of the document.
\<close>

theorem build_chunks_placeholder:
  assumes "extract_pages reader file_bytes = Inr pages'"
    and "\<forall>p \<in> set pages'. snd p = []"
  shows "build_chunks_from_pdf reader split_text file_bytes filename doc_hash' chunk_size chunk_overlap
         = Inr ([[]],
                [[(''source'', PStr filename), (''doc_hash'', PStr doc_hash'),
                  (''doc_id'', PStr (slice_to 12 doc_hash')), (''page'', PNone),
                  (''pages'', PStr []), (''chunk_id'', PInt 0)]])"
  using assms
  by (simp add: build_chunks_from_pdf_def chunk_pages_nothing placeholder_meta_def)

lemma normalize_blank_example:
  "normalize_whitespace [] = []" "normalize_whitespace [32, 13, 10, 9] = []"
  by (simp_all add: normalize_whitespace_def replace_cr_def blank_def strip_def is_space_def)

theorem build_chunks_placeholder_witness:
  "extract_pages (\<lambda>b. Inr [Raises, Returns None, Returns (Some [32, 13, 10, 9])]) [37, 80, 68, 70]
     = Inr [(1, []), (2, []), (3, [])]
   \<and> build_chunks_from_pdf (\<lambda>b. Inr [Raises, Returns None, Returns (Some [32, 13, 10, 9])])
        (\<lambda>size overlap seps t. Inr [t]) [37, 80, 68, 70] (ascii ''a.pdf'') (ascii ''0123456789abcdef'')
        800 120
      = Inr ([[]],
             [[(''source'', PStr (ascii ''a.pdf'')), (''doc_hash'', PStr (ascii ''0123456789abcdef'')),
               (''doc_id'', PStr (ascii ''0123456789ab'')), (''page'', PNone),
               (''pages'', PStr []), (''chunk_id'', PInt 0)]])"
proof -
  have e: "extract_pages (\<lambda>b. Inr [Raises, Returns None, Returns (Some [32, 13, 10, 9])]) [37, 80, 68, 70]
     = Inr [(1, []), (2, []), (3, [])]"
    by (simp add: extract_pages_def extracted_text_def normalize_blank_example)
  have a: "\<forall>p \<in> set [(1::int, []::pystr), (2, []), (3, [])]. snd p = []" by simp
  have s: "slice_to 12 (ascii ''0123456789abcdef'') = ascii ''0123456789ab''"
    by (simp add: slice_to_def ascii_def)
  from build_chunks_placeholder [OF e a, of "\<lambda>size overlap seps t. Inr [t]" "ascii ''a.pdf''"
      "ascii ''0123456789abcdef''" 800 120] e s
  show ?thesis by simp
qed

lemma chunk_pages_lengths:
  assumes "chunk_pages split_text filename doc_hash' doc_id chunk_size chunk_overlap pages'
             (texts, metas, i) = Inr (texts2, metas2, i2)"
    and "length metas = length texts"
  shows "length metas2 = length texts2"
proof -
  from chunk_pages_result [OF assms(1)]
  have "length (map (\<lambda>m. map_of m ''chunk_id'') metas2)
      = length (map (\<lambda>m. map_of m ''chunk_id'') metas
          @ map (\<lambda>j. Some (PInt (i + int j)))
              [0..<length (concat (map (page_chunks split_text chunk_size chunk_overlap) pages'))])"
    and "texts2 = texts @ concat (map (page_chunks split_text chunk_size chunk_overlap) pages')"
    by simp_all
  with assms(2) show ?thesis by simp
qed

lemma enumerate_pages_length: "length (enumerate_pages i reader_pages) = length reader_pages"
  by (induction reader_pages arbitrary: i) auto

lemma enumerate_pages_numbers:
  "map fst (enumerate_pages i reader_pages) = map (\<lambda>j. i + 1 + int j) [0..<length reader_pages]"
proof (induction reader_pages arbitrary: i)
  case Nil
  then show ?case by simp
next
  case (Cons p reader_pages)
  have e: "[0..<length (p # reader_pages)] = 0 # map Suc [0..<length reader_pages]"
    using upt_0_Suc [of "length reader_pages"] by simp
  show ?case
    unfolding e by (simp add: Cons.IH comp_def add.assoc)
qed

text \<open>
  Claim C4. When the pages of the PDF yield at least one chunk, the texts returned by
  \<open>build_chunks_from_pdf\<close> are the chunks of the pages in the order of the pages, a page of
  empty text contributing none, there is one metadata record per text, and the
  \<^verbatim>\<open>chunk_id\<close> values are \<open>0, 1, \<dots>, M - 1\<close> in this order, \<open>M\<close> being the number of chunks of
  all pages: the counter is not reset at a page. The \<^verbatim>\<open>page\<close> values follow the pages, which
  are numbered from 1 upwards.
\<close>

theorem build_chunks_dense_chunk_ids:
  assumes "extract_pages reader file_bytes = Inr pages'"
    and "build_chunks_from_pdf reader split_text file_bytes filename doc_hash' chunk_size
           chunk_overlap = Inr (texts, metas)"
    and "concat (map (page_chunks split_text chunk_size chunk_overlap) pages') \<noteq> []"
  shows "texts = concat (map (page_chunks split_text chunk_size chunk_overlap) pages')
    \<and> length metas = length texts
    \<and> map (\<lambda>m. map_of m ''chunk_id'') metas = map (\<lambda>j. Some (PInt (int j))) [0..<length texts]
    \<and> map (\<lambda>m. map_of m ''page'') metas
        = concat (map (\<lambda>p. replicate (length (page_chunks split_text chunk_size chunk_overlap p))
                              (Some (PInt (fst p)))) pages')
    \<and> map fst pages' = map (\<lambda>j. 1 + int j) [0..<length pages']"
proof -
  obtain texts2 metas2 i2 where
    cp: "chunk_pages split_text filename doc_hash' (slice_to 12 doc_hash') chunk_size chunk_overlap
           pages' ([], [], 0) = Inr (texts2, metas2, i2)"
    using assms(1,2)
    by (cases "chunk_pages split_text filename doc_hash' (slice_to 12 doc_hash') chunk_size
          chunk_overlap pages' ([], [], 0)")
      (auto simp: build_chunks_from_pdf_def Let_def)
  note r = chunk_pages_result [OF cp]
  have t2: "texts2 \<noteq> []" using r assms(3) by simp
  have eq: "texts = texts2" "metas = metas2"
    using assms(1,2) cp t2 by (auto simp: build_chunks_from_pdf_def Let_def)
  have len: "length metas2 = length texts2"
    by (rule chunk_pages_lengths [OF cp]) simp
  have nums: "map fst pages' = map (\<lambda>j. 1 + int j) [0..<length pages']"
    using assms(1) enumerate_pages_numbers [of 0]
    by (auto simp: extract_pages_def enumerate_pages_length split: sum.splits)
  show ?thesis
    using r len nums unfolding eq by simp
qed



lemma normalize_plain_example:
  "normalize_whitespace [97] = [97]" "normalize_whitespace [98] = [98]"
  by (simp_all add: normalize_whitespace_def replace_cr_def blank_def strip_def is_space_def)

theorem build_chunks_dense_chunk_ids_witness:
  "build_chunks_from_pdf (\<lambda>b. Inr [Returns (Some [97]), Returns None, Returns (Some [98])])
      (\<lambda>size overlap seps t. Inr [t, t]) [37, 80, 68, 70] (ascii ''a.pdf'') (ascii ''0123'') 800 120
    = Inr ([[97], [97], [98], [98]],
           [chunk_meta (ascii ''a.pdf'') (ascii ''0123'') (ascii ''0123'') 1 0,
            chunk_meta (ascii ''a.pdf'') (ascii ''0123'') (ascii ''0123'') 1 1,
            chunk_meta (ascii ''a.pdf'') (ascii ''0123'') (ascii ''0123'') 3 2,
            chunk_meta (ascii ''a.pdf'') (ascii ''0123'') (ascii ''0123'') 3 3])
   \<and> map (\<lambda>m. map_of m ''chunk_id'')
        [chunk_meta (ascii ''a.pdf'') (ascii ''0123'') (ascii ''0123'') 1 0,
         chunk_meta (ascii ''a.pdf'') (ascii ''0123'') (ascii ''0123'') 1 1,
         chunk_meta (ascii ''a.pdf'') (ascii ''0123'') (ascii ''0123'') 3 2,
         chunk_meta (ascii ''a.pdf'') (ascii ''0123'') (ascii ''0123'') 3 3]
      = [Some (PInt 0), Some (PInt 1), Some (PInt 2), Some (PInt 3)]
   \<and> map (\<lambda>m. map_of m ''page'')
        [chunk_meta (ascii ''a.pdf'') (ascii ''0123'') (ascii ''0123'') 1 0,
         chunk_meta (ascii ''a.pdf'') (ascii ''0123'') (ascii ''0123'') 1 1,
         chunk_meta (ascii ''a.pdf'') (ascii ''0123'') (ascii ''0123'') 3 2,
         chunk_meta (ascii ''a.pdf'') (ascii ''0123'') (ascii ''0123'') 3 3]
      = [Some (PInt 1), Some (PInt 1), Some (PInt 3), Some (PInt 3)]"
proof -
  let ?reader = "\<lambda>b::bytes. Inr [Returns (Some [97]), Returns None, Returns (Some [98])] :: error + extraction list"
  let ?split = "\<lambda>(size::int) (overlap::int) (seps::pystr list) (t::pystr). Inr [t, t] :: error + pystr list"
  have e: "extract_pages ?reader [37, 80, 68, 70] = Inr [(1, [97]), (2, []), (3, [98])]"
    by (simp add: extract_pages_def extracted_text_def normalize_plain_example
        normalize_blank_example)
  have s: "slice_to 12 (ascii ''0123'') = ascii ''0123''"
    by (simp add: slice_to_def ascii_def)
  have b: "build_chunks_from_pdf ?reader ?split [37, 80, 68, 70] (ascii ''a.pdf'') (ascii ''0123'') 800 120
    = Inr ([[97], [97], [98], [98]],
           [chunk_meta (ascii ''a.pdf'') (ascii ''0123'') (ascii ''0123'') 1 0,
            chunk_meta (ascii ''a.pdf'') (ascii ''0123'') (ascii ''0123'') 1 1,
            chunk_meta (ascii ''a.pdf'') (ascii ''0123'') (ascii ''0123'') 3 2,
            chunk_meta (ascii ''a.pdf'') (ascii ''0123'') (ascii ''0123'') 3 3])"
    by (simp add: build_chunks_from_pdf_def e s chunk_page_text_def Let_def)
  have c: "concat (map (page_chunks ?split 800 120) [(1, [97]), (2, []), (3, [98])]) \<noteq> []"
    by (simp add: page_chunks_def chunk_page_text_def)
  have p: "concat (map (\<lambda>p. replicate (length (page_chunks ?split 800 120 p)) (Some (PInt (fst p))))
             [(1, [97]), (2, []), (3, [98])])
           = [Some (PInt 1), Some (PInt 1), Some (PInt 3), Some (PInt 3)]"
    by (simp add: page_chunks_def chunk_page_text_def numeral_2_eq_2)
  note t = build_chunks_dense_chunk_ids [OF e b c]
  have ids: "map (\<lambda>m. map_of m ''chunk_id'')
        [chunk_meta (ascii ''a.pdf'') (ascii ''0123'') (ascii ''0123'') 1 0,
         chunk_meta (ascii ''a.pdf'') (ascii ''0123'') (ascii ''0123'') 1 1,
         chunk_meta (ascii ''a.pdf'') (ascii ''0123'') (ascii ''0123'') 3 2,
         chunk_meta (ascii ''a.pdf'') (ascii ''0123'') (ascii ''0123'') 3 3]
      = [Some (PInt 0), Some (PInt 1), Some (PInt 2), Some (PInt 3)]"
    using t [THEN conjunct2, THEN conjunct2, THEN conjunct1] by simp
  have pgs: "map (\<lambda>m. map_of m ''page'')
        [chunk_meta (ascii ''a.pdf'') (ascii ''0123'') (ascii ''0123'') 1 0,
         chunk_meta (ascii ''a.pdf'') (ascii ''0123'') (ascii ''0123'') 1 1,
         chunk_meta (ascii ''a.pdf'') (ascii ''0123'') (ascii ''0123'') 3 2,
         chunk_meta (ascii ''a.pdf'') (ascii ''0123'') (ascii ''0123'') 3 3]
      = [Some (PInt 1), Some (PInt 1), Some (PInt 3), Some (PInt 3)]"
    using t [THEN conjunct2, THEN conjunct2, THEN conjunct2, THEN conjunct1]
    unfolding p .
  from b ids pgs show ?thesis
    by (intro conjI)
qed

section \<open>Properties of the paths and of the store\<close>

lemma split_sep_append:
  "split_sep part (xs @ 47 # ys) = split_sep part xs @ split_sep [] ys"
  by (induction xs arbitrary: part) auto

lemma walk_append: "walk dir (ps @ qs) = walk (walk dir ps) qs"
  by (induction ps arbitrary: dir) auto

lemma resolve_append_sep:
  "resolve (base @ 47 # cid) = walk (resolve base) (split_sep [] cid)"
  by (simp add: resolve_def split_sep_append walk_append)

lemma resolve_trailing_sep: "resolve (base @ [47]) = resolve base"
  using resolve_append_sep [of base "[]"] by simp

lemma resolve_corpus_dir_parent:
  assumes "resolve (CHROMA_BASE_DIR cfg) \<noteq> []"
  shows "resolve (corpus_dir cfg [46, 46]) = butlast (resolve (CHROMA_BASE_DIR cfg))"
proof (cases "CHROMA_BASE_DIR cfg = []")
  case True
  with assms show ?thesis by (simp add: resolve_def)
next
  case False
  show ?thesis
  proof (cases "last (CHROMA_BASE_DIR cfg) = 47")
    case True
    with False obtain b where b: "CHROMA_BASE_DIR cfg = b @ [47]"
      by (metis append_butlast_last_id)
    have "corpus_dir cfg [46, 46] = b @ 47 # [46, 46]"
      using b by (simp add: corpus_dir_def path_join_def)
    then show ?thesis
      by (simp add: resolve_append_sep b resolve_trailing_sep)
  next
    case l: False
    have "corpus_dir cfg [46, 46] = CHROMA_BASE_DIR cfg @ 47 # [46, 46]"
      using False l by (simp add: corpus_dir_def path_join_def)
    then show ?thesis
      by (simp add: resolve_append_sep)
  qed
qed

lemma reset_corpus_removes:
  "exists fs (corpus_dir cfg cid) \<Longrightarrow>
     snd (reset_corpus cfg exists rmtree cid fs) = snd (rmtree fs (corpus_dir cfg cid))"
  by (auto simp: reset_corpus_def reset_body_def Let_def split: prod.splits sum.splits error.splits)

text \<open>
  Claim C10. \<open>corpus_dir\<close> is the plain join of \<^verbatim>\<open>CHROMA_BASE_DIR\<close> and the corpus id, which is
  not validated: for a base directory other than the root, the ids \<^verbatim>\<open>/\<close> and \<^verbatim>\<open>..\<close> give paths
  that lead outside the base directory, and \<open>reset_corpus\<close> removes whatever exists at the
  path of the id it is given (the file system after it is the one \<^verbatim>\<open>rmtree\<close> leaves for that
  path).
\<close>

theorem corpus_dir_unvalidated:
  assumes "resolve (CHROMA_BASE_DIR cfg) \<noteq> []"
  shows "corpus_dir cfg cid = path_join (CHROMA_BASE_DIR cfg) cid
    \<and> \<not> inside (CHROMA_BASE_DIR cfg) (corpus_dir cfg [47])
    \<and> \<not> inside (CHROMA_BASE_DIR cfg) (corpus_dir cfg [46, 46])
    \<and> (exists fs (corpus_dir cfg cid) \<longrightarrow>
         snd (reset_corpus cfg exists rmtree cid fs) = snd (rmtree fs (corpus_dir cfg cid)))"
proof -
  have root: "resolve (corpus_dir cfg [47]) = []"
    by (simp add: corpus_dir_def path_join_def resolve_def)
  have "length (butlast (resolve (CHROMA_BASE_DIR cfg))) < length (resolve (CHROMA_BASE_DIR cfg))"
    using assms by simp
  then have "take (length (resolve (CHROMA_BASE_DIR cfg))) (butlast (resolve (CHROMA_BASE_DIR cfg)))
      \<noteq> resolve (CHROMA_BASE_DIR cfg)"
    by (metis length_take min.strict_order_iff less_irrefl min.absorb2 less_imp_le)
  then have parent: "\<not> inside (CHROMA_BASE_DIR cfg) (corpus_dir cfg [46, 46])"
    by (simp add: inside_def resolve_corpus_dir_parent [OF assms])
  have root': "\<not> inside (CHROMA_BASE_DIR cfg) (corpus_dir cfg [47])"
    using assms by (simp add: inside_def root)
  have join: "corpus_dir cfg cid = path_join (CHROMA_BASE_DIR cfg) cid"
    by (simp add: corpus_dir_def)
  have rm: "exists fs (corpus_dir cfg cid) \<longrightarrow>
         snd (reset_corpus cfg exists rmtree cid fs) = snd (rmtree fs (corpus_dir cfg cid))"
    by (simp add: reset_corpus_removes)
  from join root' parent rm show ?thesis by (intro conjI)
qed

lemma resolve_default_base:
  "resolve (CHROMA_BASE_DIR default_config) = [ascii ''app'', ascii ''data'', ascii ''chroma'']"
  by (simp add: default_config_def resolve_def ascii_def)

lemma corpus_dir_default_parent:
  "corpus_dir default_config [46, 46] = ascii ''/app/data/chroma/..''"
  by (simp add: corpus_dir_def path_join_def default_config_def ascii_def)

theorem corpus_dir_unvalidated_witness:
  "resolve (CHROMA_BASE_DIR default_config) = [ascii ''app'', ascii ''data'', ascii ''chroma'']
   \<and> corpus_dir default_config [46, 46] = ascii ''/app/data/chroma/..''
   \<and> \<not> inside (CHROMA_BASE_DIR default_config) (corpus_dir default_config [47])
   \<and> \<not> inside (CHROMA_BASE_DIR default_config) (ascii ''/app/data/chroma/..'')
   \<and> snd (reset_corpus default_config (\<lambda>fs p. p \<in> set fs) (\<lambda>fs p. (Inr (), removeAll p fs))
            [46, 46] [ascii ''/app/data/chroma/..'', ascii ''/app/data/chroma/x''])
       = [ascii ''/app/data/chroma/x'']"
proof -
  have h: "resolve (CHROMA_BASE_DIR default_config) \<noteq> []"
    by (simp add: resolve_default_base)
  have x: "(\<lambda>fs p. p \<in> set fs) [ascii ''/app/data/chroma/..'', ascii ''/app/data/chroma/x'']
     (corpus_dir default_config [46, 46])"
    by (simp add: corpus_dir_default_parent)
  have r: "snd ((\<lambda>fs p. (Inr () :: error + unit, removeAll p fs))
                 [ascii ''/app/data/chroma/..'', ascii ''/app/data/chroma/x'']
                 (corpus_dir default_config [46, 46])) = [ascii ''/app/data/chroma/x'']"
    by (simp add: corpus_dir_default_parent ascii_def)
  note t = corpus_dir_unvalidated [OF h, of "[46, 46]" "\<lambda>fs p. p \<in> set fs"
      "[ascii ''/app/data/chroma/..'', ascii ''/app/data/chroma/x'']"
      "\<lambda>fs p. (Inr (), removeAll p fs)"]
  have n1: "\<not> inside (CHROMA_BASE_DIR default_config) (corpus_dir default_config [47])"
    using t by (elim conjE)
  have n2: "\<not> inside (CHROMA_BASE_DIR default_config) (corpus_dir default_config [46, 46])"
    using t by (elim conjE)
  have rm: "snd (reset_corpus default_config (\<lambda>fs p. p \<in> set fs) (\<lambda>fs p. (Inr (), removeAll p fs))
            [46, 46] [ascii ''/app/data/chroma/..'', ascii ''/app/data/chroma/x''])
       = snd ((\<lambda>fs p. (Inr () :: error + unit, removeAll p fs))
                 [ascii ''/app/data/chroma/..'', ascii ''/app/data/chroma/x'']
                 (corpus_dir default_config [46, 46]))"
    by (rule t [THEN conjunct2, THEN conjunct2, THEN conjunct2, THEN mp, OF x])
  from resolve_default_base corpus_dir_default_parent n1
    n2 [unfolded corpus_dir_default_parent] trans [OF rm r]
  show ?thesis by (intro conjI)
qed

text \<open>
  Claim C6 as stated, that a call of \<open>upsert_texts\<close> with lists of different lengths is
  rejected before any text is embedded, fails for an index constructor that embeds the
  texts it is given: with one text and no metadata the call returns normally and the text
  has been embedded.
\<close>

theorem upsert_texts_mismatch_counterexample:
  "length [[116::nat]] \<noteq> length ([]::pydict list)
   \<and> fst (upsert_texts default_config embed_all persist_ok [99] [[116]] []) = Inr ()
   \<and> Embed (embedding_fn default_config) [116]
       \<in> set (snd (upsert_texts default_config embed_all persist_ok [99] [[116]] []))"
  by (simp add: upsert_texts_def embed_all_def persist_ok_def Let_def)

text \<open>
  Claim C6, amended. \<open>upsert_texts\<close> has no check of the lengths of its own: whether the
  lengths are equal or not, it hands both lists to the index constructor as they are, the
  texts embedded are exactly those the constructor embeds, and the call fails exactly when
  the constructor or, after it, \<^verbatim>\<open>persist\<close> fails.
\<close>

theorem upsert_texts_delegates:
  "(Embed emb' t \<in> set (snd (upsert_texts cfg from_texts persist corpus_id texts metadatas))
      \<longleftrightarrow> emb' = embedding_fn cfg
          \<and> t \<in> set (snd (from_texts (embedding_fn cfg) (corpus_dir cfg corpus_id) texts metadatas)))
   \<and> ((\<exists>e. fst (upsert_texts cfg from_texts persist corpus_id texts metadatas) = Inl e)
      \<longleftrightarrow> (\<exists>e. fst (from_texts (embedding_fn cfg) (corpus_dir cfg corpus_id) texts metadatas) = Inl e)
          \<or> (\<exists>e. persist (corpus_dir cfg corpus_id) = Inl e))"
  by (cases "from_texts (embedding_fn cfg) (corpus_dir cfg corpus_id) texts metadatas";
      cases "fst (from_texts (embedding_fn cfg) (corpus_dir cfg corpus_id) texts metadatas)";
      cases "persist (corpus_dir cfg corpus_id)")
    (auto simp: upsert_texts_def Let_def)

section \<open>Properties of the whitespace normalisation\<close>

text \<open>
  Claim C3 as stated, that every line ending, \<^verbatim>\<open>\r\n\<close> included, becomes a single newline,
  fails on the text \<^verbatim>\<open>a\r\nb\<close>: the code gives \<^verbatim>\<open>a\n\nb\<close>, with two newlines, where one newline for
  each line ending gives \<^verbatim>\<open>a\nb\<close>.
\<close>

theorem normalize_whitespace_crlf_counterexample:
  "normalize_whitespace [97, 13, 10, 98] = [97, 10, 10, 98]
   \<and> normalize_one_newline [97, 13, 10, 98] = [97, 10, 98]"
  by (simp add: normalize_whitespace_def normalize_one_newline_def replace_cr_def blank_def
      strip_def is_space_def)

lemma blank_is_space: "blank c \<Longrightarrow> is_space c"
  by (auto simp: blank_def is_space_def)

lemma not_space_simps:
  "\<not> is_space c \<Longrightarrow> c \<noteq> 13" "\<not> is_space c \<Longrightarrow> c \<noteq> 10" "\<not> is_space c \<Longrightarrow> c \<noteq> 32"
  "\<not> is_space c \<Longrightarrow> c \<noteq> 9" "\<not> is_space c \<Longrightarrow> \<not> blank c"
  by (auto simp: blank_def is_space_def)

lemma set_replace_cr: "13 \<notin> set (replace_cr text)"
  by (auto simp: replace_cr_def)

lemma set_sub_blanks: "c \<in> set (sub_blanks s) \<Longrightarrow> c = 32 \<or> (c \<in> set s \<and> \<not> blank c)"
proof (induction s rule: sub_blanks.induct)
  case 1
  then show ?case by simp
next
  case (2 d ds)
  show ?case
  proof (cases "blank d")
    case True
    with 2 show ?thesis by (auto dest: set_dropWhileD)
  next
    case False
    with 2 show ?thesis by auto
  qed
qed

lemma set_sub_newlines: "set (sub_newlines s) \<subseteq> set s"
proof (induction s rule: sub_newlines.induct)
  case 1
  then show ?case by simp
next
  case (2 c cs)
  show ?case
  proof (cases "c = 10 \<and> 2 \<le> length (takeWhile (\<lambda>x. x = 10) cs)")
    case True
    with 2 show ?thesis by (auto dest: set_dropWhileD)
  next
    case False
    with 2 show ?thesis by auto
  qed
qed

lemma set_strip: "set (strip s) \<subseteq> set s"
  by (auto simp: strip_def dest!: set_dropWhileD)

lemma normalize_no_cr_tab:
  "13 \<notin> set (normalize_whitespace text)" "9 \<notin> set (normalize_whitespace text)"
proof -
  have "set (normalize_whitespace text) \<subseteq> set (sub_blanks (replace_cr text))"
    unfolding normalize_whitespace_def using set_strip set_sub_newlines by blast
  moreover have "13 \<notin> set (sub_blanks (replace_cr text))"
    using set_sub_blanks [of 13 "replace_cr text"] set_replace_cr [of "text"] by auto
  moreover have "9 \<notin> set (sub_blanks (replace_cr text))"
    using set_sub_blanks [of 9 "replace_cr text"] by (auto simp: blank_def)
  ultimately show "13 \<notin> set (normalize_whitespace text)" "9 \<notin> set (normalize_whitespace text)"
    by auto
qed


lemma sub_blanks_head:
  "s \<noteq> [] \<Longrightarrow> \<not> blank (hd s) \<Longrightarrow> sub_blanks s \<noteq> [] \<and> hd (sub_blanks s) = hd s"
  by (cases s) auto

lemma take1_sub_newlines: "take (Suc 0) (sub_newlines s) = take (Suc 0) s"
  by (cases s) auto

lemma take2_sub_newlines:
  assumes a: "take 2 (sub_newlines s) = [10, 10]"
  shows "take 2 s = [10, 10]"
proof (cases s)
  case Nil
  with a show ?thesis by simp
next
  case (Cons c cs)
  show ?thesis
  proof (cases "c = 10 \<and> 2 \<le> length (takeWhile (\<lambda>x. x = 10) cs)")
    case True
    then obtain d ds where "cs = d # ds" "d = 10"
      by (cases cs) (auto split: if_splits)
    with True Cons show ?thesis by simp
  next
    case False
    with a Cons have "c = 10" "take (Suc 0) (sub_newlines cs) = [10]"
      by (auto simp: numeral_2_eq_2)
    then have "take (Suc 0) cs = [10]" by (simp add: take1_sub_newlines)
    with \<open>c = 10\<close> Cons show ?thesis
      by (cases cs) (auto simp: numeral_2_eq_2)
  qed
qed

lemma run_of_two: "take 2 cs = [10, 10] \<Longrightarrow> 2 \<le> length (takeWhile (\<lambda>x. x = (10::nat)) cs)"
  by (cases cs; cases "tl cs") (auto simp: numeral_2_eq_2)

lemma take1_dropWhile: "take (Suc 0) (dropWhile (\<lambda>x. x = (10::nat)) cs) \<noteq> [10]"
proof (cases "dropWhile (\<lambda>x. x = (10::nat)) cs")
  case Nil
  then show ?thesis by (simp del: dropWhile_eq_Nil_conv)
next
  case (Cons d ds)
  then have "d \<noteq> 10" using hd_dropWhile [of "\<lambda>x. x = (10::nat)" cs] by auto
  with Cons show ?thesis by simp
qed

lemma sub_newlines_no_triple: "sub_newlines s \<noteq> xs @ 10 # 10 # 10 # ys"
proof (induction s arbitrary: xs rule: sub_newlines.induct)
  case 1
  then show ?case by simp
next
  case (2 c cs)
  show ?case
  proof (cases "c = 10 \<and> 2 \<le> length (takeWhile (\<lambda>x. x = 10) cs)")
    case True
    let ?R = "sub_newlines (dropWhile (\<lambda>x. x = 10) cs)"
    have res: "sub_newlines (c # cs) = 10 # 10 # ?R" using True by simp
    have hdR: "take (Suc 0) ?R \<noteq> [10]"
      by (simp add: take1_sub_newlines take1_dropWhile)
    have ih: "\<And>zs. ?R \<noteq> zs @ 10 # 10 # 10 # ys" using 2(1) True by simp
    show ?thesis
    proof
      assume "sub_newlines (c # cs) = xs @ 10 # 10 # 10 # ys"
      then have e: "10 # 10 # ?R = xs @ 10 # 10 # 10 # ys" using res by simp
      show False
      proof (cases xs)
        case Nil
        with e hdR show ?thesis by simp
      next
        case (Cons x xs')
        show ?thesis
        proof (cases xs')
          case Nil
          with e Cons hdR show ?thesis by simp
        next
          case (Cons y xs'')
          with e \<open>xs = x # xs'\<close> ih [of xs''] show ?thesis by simp
        qed
      qed
    qed
  next
    case False
    let ?R = "sub_newlines cs"
    have res: "sub_newlines (c # cs) = c # ?R" using False by auto
    have ih: "\<And>zs. ?R \<noteq> zs @ 10 # 10 # 10 # ys" using 2(2) False by simp
    show ?thesis
    proof
      assume "sub_newlines (c # cs) = xs @ 10 # 10 # 10 # ys"
      then have e: "c # ?R = xs @ 10 # 10 # 10 # ys" using res by simp
      show False
      proof (cases xs)
        case Nil
        with e have "c = 10" "take 2 ?R = [10, 10]" by (auto simp: numeral_2_eq_2)
        then have "c = 10 \<and> 2 \<le> length (takeWhile (\<lambda>x. x = 10) cs)"
          using take2_sub_newlines [of cs] run_of_two [of cs] by simp
        with False show ?thesis by simp
      next
        case (Cons x xs')
        with e ih [of xs'] show ?thesis by simp
      qed
    qed
  qed
qed

lemma strip_infix: "\<exists>pre post. s = pre @ strip s @ post"
proof -
  let ?u = "dropWhile is_space s"
  have 1: "s = takeWhile is_space s @ ?u" by simp
  have "strip s @ rev (takeWhile is_space (rev ?u))
      = rev (takeWhile is_space (rev ?u) @ dropWhile is_space (rev ?u))"
    by (simp only: rev_append strip_def)
  also have "\<dots> = rev (rev ?u)"
    by (simp only: takeWhile_dropWhile_id)
  finally have 2: "?u = strip s @ rev (takeWhile is_space (rev ?u))"
    by simp
  from 1 2 have "s = takeWhile is_space s @ strip s @ rev (takeWhile is_space (rev ?u))"
    by simp
  then show ?thesis by blast
qed

lemma normalize_no_triple: "normalize_whitespace text \<noteq> xs @ 10 # 10 # 10 # ys"
proof
  assume a: "normalize_whitespace text = xs @ 10 # 10 # 10 # ys"
  let ?s = "sub_newlines (sub_blanks (replace_cr text))"
  obtain pre post where "?s = pre @ strip ?s @ post" using strip_infix by blast
  with a have "?s = (pre @ xs) @ 10 # 10 # 10 # (ys @ post)"
    by (simp add: normalize_whitespace_def)
  with sub_newlines_no_triple show False by blast
qed


lemma successively_dropWhile:
  "successively Q (c # cs) \<Longrightarrow> successively Q (dropWhile P cs)"
proof -
  assume "successively Q (c # cs)"
  then have "successively Q cs" by (auto simp: successively_Cons)
  then have "successively Q (takeWhile P cs @ dropWhile P cs)" by simp
  then show ?thesis unfolding successively_append_iff by blast
qed

lemma sub_blanks_no_pair: "successively (\<lambda>a b. \<not> (a = 32 \<and> b = 32)) (sub_blanks s)"
proof (induction s rule: sub_blanks.induct)
  case 1
  then show ?case by simp
next
  case (2 c cs)
  show ?case
  proof (cases "blank c")
    case True
    let ?t = "dropWhile blank cs"
    have ih: "successively (\<lambda>a b. \<not> (a = 32 \<and> b = 32)) (sub_blanks ?t)"
      using 2(1) True by simp
    have "sub_blanks ?t = [] \<or> hd (sub_blanks ?t) \<noteq> 32"
    proof (cases "?t = []")
      case True
      then show ?thesis by (simp del: dropWhile_eq_Nil_conv)
    next
      case False
      then have "\<not> blank (hd ?t)" using hd_dropWhile [of blank cs] by simp
      with False sub_blanks_head [of ?t] show ?thesis by (auto simp: blank_def)
    qed
    with ih True show ?thesis by (auto simp: successively_Cons)
  next
    case False
    then have "c \<noteq> 32" by (simp add: blank_def)
    with 2(2) False show ?thesis by (auto simp: successively_Cons)
  qed
qed

lemma hd_sub_newlines: "sub_newlines s \<noteq> [] \<Longrightarrow> hd (sub_newlines s) = hd s"
  by (cases s) auto

lemma sub_newlines_no_pair:
  "successively (\<lambda>a b. \<not> (a = 32 \<and> b = 32)) s
    \<Longrightarrow> successively (\<lambda>a b. \<not> (a = 32 \<and> b = (32::nat))) (sub_newlines s)"
proof (induction s rule: sub_newlines.induct)
  case 1
  then show ?case by simp
next
  case (2 c cs)
  show ?case
  proof (cases "c = 10 \<and> 2 \<le> length (takeWhile (\<lambda>x. x = 10) cs)")
    case True
    have "successively (\<lambda>a b. \<not> (a = 32 \<and> b = 32)) (dropWhile (\<lambda>x. x = 10) cs)"
      using "2.prems" by (rule successively_dropWhile)
    then have "successively (\<lambda>a b. \<not> (a = 32 \<and> b = 32))
        (sub_newlines (dropWhile (\<lambda>x. x = 10) cs))"
      using 2(1) True by simp
    with True show ?thesis by (auto simp: successively_Cons)
  next
    case False
    have cs: "successively (\<lambda>a b. \<not> (a = 32 \<and> b = 32)) cs"
      using "2.prems" by (auto simp: successively_Cons)
    then have ih: "successively (\<lambda>a b. \<not> (a = 32 \<and> b = 32)) (sub_newlines cs)"
      using 2(2) False by simp
    have "sub_newlines cs = [] \<or> \<not> (c = 32 \<and> hd (sub_newlines cs) = 32)"
    proof (cases "sub_newlines cs = []")
      case True
      then show ?thesis by simp
    next
      case ne: False
      then have "cs \<noteq> []" by auto
      with "2.prems" have "\<not> (c = 32 \<and> hd cs = 32)" by (auto simp: successively_Cons)
      with ne show ?thesis by (simp add: hd_sub_newlines)
    qed
    with ih False show ?thesis by (auto simp: successively_Cons)
  qed
qed

lemma successively_infix: "successively Q (pre @ mid @ post) \<Longrightarrow> successively Q mid"
  by (auto simp: successively_append_iff)

lemma normalize_no_pair: "normalize_whitespace text \<noteq> xs @ 32 # 32 # ys"
proof
  assume a: "normalize_whitespace text = xs @ 32 # 32 # ys"
  let ?s = "sub_newlines (sub_blanks (replace_cr text))"
  have 1: "successively (\<lambda>a b. \<not> (a = 32 \<and> b = (32::nat))) ?s"
    by (intro sub_newlines_no_pair sub_blanks_no_pair)
  obtain pre post where "?s = pre @ strip ?s @ post" using strip_infix by blast
  with a have "?s = (pre @ xs) @ (32 # 32 # ys) @ post"
    by (simp add: normalize_whitespace_def)
  with 1 have "successively (\<lambda>a b. \<not> (a = 32 \<and> b = (32::nat))) ((pre @ xs) @ (32 # 32 # ys) @ post)"
    by (simp only:)
  then have "successively (\<lambda>a b. \<not> (a = 32 \<and> b = (32::nat))) (32 # 32 # ys)"
    by (rule successively_infix [where mid = "32 # 32 # ys"])
  then show False by simp
qed

lemma strip_ends: "strip s = [] \<or> (\<not> is_space (hd (strip s)) \<and> \<not> is_space (last (strip s)))"
proof (cases "strip s = []")
  case True
  then show ?thesis by simp
next
  case False
  let ?u = "dropWhile is_space s"
  let ?v = "dropWhile is_space (rev ?u)"
  have r: "strip s = rev ?v" by (simp add: strip_def)
  with False have v: "?v \<noteq> []" by simp
  then have hv: "\<not> is_space (hd ?v)" using hd_dropWhile [of is_space "rev ?u"] by simp
  from v have u: "?u \<noteq> []"
    by (cases "?u = []") (simp_all del: dropWhile_eq_Nil_conv)
  then have hu: "\<not> is_space (hd ?u)" using hd_dropWhile [of is_space s] by simp
  have "rev ?u = takeWhile is_space (rev ?u) @ ?v" by simp
  then have "last (rev ?u) = last ?v" using v by (metis last_appendR)
  then have "last ?v = hd ?u" using u by (simp add: last_rev)
  with hu hv v show ?thesis
    unfolding r by (simp add: hd_rev last_rev)
qed

lemma filter_dropWhile:
  "(\<And>x. P x \<Longrightarrow> \<not> Q x) \<Longrightarrow> filter Q (dropWhile P xs) = filter Q xs"
  by (induction xs) auto

lemma filter_replace_cr:
  "filter (\<lambda>c. \<not> is_space c) (replace_cr s) = filter (\<lambda>c. \<not> is_space c) s"
  by (induction s) (auto simp: replace_cr_def is_space_def)

lemma filter_sub_blanks:
  "filter (\<lambda>c. \<not> is_space c) (sub_blanks s) = filter (\<lambda>c. \<not> is_space c) s"
proof (induction s rule: sub_blanks.induct)
  case 1
  then show ?case by simp
next
  case (2 c cs)
  show ?case
  proof (cases "blank c")
    case True
    have "filter (\<lambda>c. \<not> is_space c) (dropWhile blank cs) = filter (\<lambda>c. \<not> is_space c) cs"
      by (rule filter_dropWhile) (simp add: blank_is_space)
    moreover have "is_space 32" by (simp add: is_space_def)
    ultimately show ?thesis
      using 2(1) True by (simp add: blank_is_space)
  next
    case False
    with 2(2) show ?thesis by simp
  qed
qed

lemma filter_sub_newlines:
  "filter (\<lambda>c. \<not> is_space c) (sub_newlines s) = filter (\<lambda>c. \<not> is_space c) s"
proof (induction s rule: sub_newlines.induct)
  case 1
  then show ?case by simp
next
  case (2 c cs)
  show ?case
  proof (cases "c = 10 \<and> 2 \<le> length (takeWhile (\<lambda>x. x = 10) cs)")
    case True
    have "filter (\<lambda>c. \<not> is_space c) (dropWhile (\<lambda>x. x = 10) cs) = filter (\<lambda>c. \<not> is_space c) cs"
      by (rule filter_dropWhile) (simp add: is_space_def)
    moreover have "is_space 10" by (simp add: is_space_def)
    ultimately show ?thesis
      using 2(1) True by simp
  next
    case False
    with 2(2) show ?thesis by auto
  qed
qed

lemma filter_strip:
  "filter (\<lambda>c. \<not> is_space c) (strip s) = filter (\<lambda>c. \<not> is_space c) s"
proof -
  have "filter (\<lambda>c. \<not> is_space c) (strip s)
      = rev (filter (\<lambda>c. \<not> is_space c) (dropWhile is_space (rev (dropWhile is_space s))))"
    by (simp add: strip_def rev_filter)
  also have "\<dots> = rev (filter (\<lambda>c. \<not> is_space c) (rev (dropWhile is_space s)))"
    by (simp add: filter_dropWhile)
  also have "\<dots> = filter (\<lambda>c. \<not> is_space c) (dropWhile is_space s)"
    by (simp add: rev_filter)
  also have "\<dots> = filter (\<lambda>c. \<not> is_space c) s"
    by (simp add: filter_dropWhile)
  finally show ?thesis .
qed

lemma normalize_keeps:
  "filter (\<lambda>c. \<not> is_space c) (normalize_whitespace text) = filter (\<lambda>c. \<not> is_space c) text"
  by (simp add: normalize_whitespace_def filter_strip filter_sub_newlines filter_sub_blanks
      filter_replace_cr)


lemma replace_cr_newlines:
  "\<forall>c \<in> set ns. c = 10 \<or> c = 13 \<Longrightarrow> replace_cr ns = replicate (length ns) 10"
  by (induction ns) (auto simp: replace_cr_def)

lemma replace_cr_id: "13 \<notin> set s \<Longrightarrow> replace_cr s = s"
  by (induction s) (auto simp: replace_cr_def)

lemma replace_cr_append: "replace_cr (xs @ ys) = replace_cr xs @ replace_cr ys"
  by (simp add: replace_cr_def)

lemma sub_blanks_id: "\<forall>c \<in> set s. \<not> blank c \<Longrightarrow> sub_blanks s = s"
  by (induction s) auto

lemma takeWhile_run:
  "b \<noteq> 10 \<Longrightarrow> takeWhile (\<lambda>x. x = (10::nat)) (replicate m 10 @ b # rest) = replicate m 10"
  by (induction m) auto

lemma dropWhile_run:
  "b \<noteq> 10 \<Longrightarrow> dropWhile (\<lambda>x. x = (10::nat)) (replicate m 10 @ b # rest) = b # rest"
  by (induction m) auto

lemma sub_newlines_run:
  assumes "b \<noteq> 10"
  shows "sub_newlines (replicate n 10 @ b # rest) = replicate (min n 2) 10 @ sub_newlines (b # rest)"
proof (cases n)
  case 0
  then show ?thesis by simp
next
  case (Suc m)
  show ?thesis
  proof (cases "2 \<le> m")
    case True
    then have "min n 2 = 2" using Suc by simp
    moreover have "sub_newlines (10 # replicate m 10 @ b # rest) = 10 # 10 # sub_newlines (b # rest)"
      using True assms by (simp add: takeWhile_run dropWhile_run del: replicate.simps)
    ultimately show ?thesis using Suc by (simp add: numeral_2_eq_2)
  next
    case False
    then consider "m = 0" | "m = 1" by linarith
    then show ?thesis
    proof cases
      case 1
      with Suc assms show ?thesis by simp
    next
      case 2
      with Suc assms show ?thesis by (simp add: numeral_2_eq_2)
    qed
  qed
qed

lemma blank_run:
  "\<forall>c \<in> set bs. blank c \<Longrightarrow> \<not> blank b \<Longrightarrow> dropWhile blank (bs @ b # rest) = b # rest"
  by (induction bs) auto

lemma strip_id: "\<not> is_space a \<Longrightarrow> \<not> is_space b \<Longrightarrow> strip (a # xs @ [b]) = a # xs @ [b]"
  by (simp add: strip_def)

lemma normalize_newline_run:
  assumes "\<not> is_space a" "\<not> is_space b" "\<forall>c \<in> set ns. c = 10 \<or> c = 13"
  shows "normalize_whitespace (a # ns @ [b]) = a # replicate (min (length ns) 2) 10 @ [b]"
proof -
  note ab = not_space_simps [OF assms(1)] not_space_simps [OF assms(2)]
  have 1: "replace_cr (a # ns @ [b]) = a # replicate (length ns) 10 @ [b]"
    using ab replace_cr_newlines [OF assms(3)]
    by (simp add: replace_cr_append [of "[a]" "ns @ [b]", simplified] replace_cr_append
        replace_cr_id)
  have 2: "sub_blanks (a # replicate (length ns) 10 @ [b]) = a # replicate (length ns) 10 @ [b]"
    by (rule sub_blanks_id) (use ab in \<open>auto simp: blank_def\<close>)
  have 3: "sub_newlines (a # replicate (length ns) 10 @ [b])
      = a # replicate (min (length ns) 2) 10 @ [b]"
    using ab sub_newlines_run [of b "length ns" "[]"] by simp
  show ?thesis
    unfolding normalize_whitespace_def 1 2 3 using assms(1,2) by (rule strip_id)
qed

lemma normalize_blank_run:
  assumes "\<not> is_space a" "\<not> is_space b" "bs \<noteq> []" "\<forall>c \<in> set bs. blank c"
  shows "normalize_whitespace (a # bs @ [b]) = [a, 32, b]"
proof -
  note ab = not_space_simps [OF assms(1)] not_space_simps [OF assms(2)]
  have "13 \<notin> set (a # bs @ [b])"
    using ab assms(4) by (auto simp: blank_def)
  then have 1: "replace_cr (a # bs @ [b]) = a # bs @ [b]" by (rule replace_cr_id)
  obtain c cs where bs: "bs = c # cs" using assms(3) by (cases bs) auto
  have "dropWhile blank (cs @ [b]) = [b]"
    using blank_run [of cs b "[]"] assms(4) ab bs by simp
  then have 2: "sub_blanks (a # bs @ [b]) = [a, 32, b]"
    using ab assms(4) bs by simp
  have 3: "sub_newlines [a, 32, b] = [a, 32, b]"
    using ab by simp
  have 4: "strip [a, 32, b] = [a, 32, b]"
    using strip_id [OF assms(1,2), of "[32]"] by simp
  show ?thesis
    unfolding normalize_whitespace_def 1 2 3 4 ..
qed

lemma last_dropWhile: "dropWhile P cs \<noteq> [] \<Longrightarrow> last (dropWhile P cs) = last cs"
proof -
  assume a: "dropWhile P cs \<noteq> []"
  have "last (takeWhile P cs @ dropWhile P cs) = last (dropWhile P cs)"
    using a by (rule last_appendR)
  then show ?thesis by simp
qed

lemma sub_blanks_append:
  assumes "xs = [] \<or> ys = [] \<or> \<not> (blank (last xs) \<and> blank (hd ys))"
  shows "sub_blanks (xs @ ys) = sub_blanks xs @ sub_blanks ys"
  using assms
proof (induction xs rule: sub_blanks.induct)
  case 1
  then show ?case by simp
next
  case (2 c cs)
  show ?case
  proof (cases "blank c")
    case True
    show ?thesis
    proof (cases "\<forall>x \<in> set cs. blank x")
      case all: True
      have "last (c # cs) \<in> set (c # cs)" by (rule last_in_set) simp
      with all True have "blank (last (c # cs))" by auto
      with "2.prems" have ys: "ys = [] \<or> \<not> blank (hd ys)" by auto
      have "dropWhile blank (cs @ ys) = dropWhile blank ys"
        using all by (simp add: dropWhile_append)
      also have "\<dots> = ys" using ys by (simp add: dropWhile_eq_self_iff)
      finally have d1: "dropWhile blank (cs @ ys) = ys" .
      have d2: "dropWhile blank cs = []" using all by simp
      show ?thesis using True by (simp add: d1 d2)
    next
      case False
      then obtain x where "x \<in> set cs" "\<not> blank x" by blast
      then have d: "dropWhile blank (cs @ ys) = dropWhile blank cs @ ys"
        by (rule dropWhile_append1)
      have ne: "dropWhile blank cs \<noteq> []" using False by simp
      then have "cs \<noteq> []" by auto
      then have "last (dropWhile blank cs) = last (c # cs)"
        using last_dropWhile [OF ne] by simp
      with "2.prems" have "dropWhile blank cs = [] \<or> ys = []
          \<or> \<not> (blank (last (dropWhile blank cs)) \<and> blank (hd ys))"
        by auto
      from "2.IH"(1) [OF True this] True d show ?thesis by simp
    qed
  next
    case False
    have "cs = [] \<or> ys = [] \<or> \<not> (blank (last cs) \<and> blank (hd ys))"
      using "2.prems" by (cases "cs = []") auto
    from "2.IH"(2) [OF False this] False show ?thesis by simp
  qed
qed

lemma sub_newlines_append:
  assumes "xs = [] \<or> ys = [] \<or> \<not> (last xs = 10 \<and> hd ys = 10)"
  shows "sub_newlines (xs @ ys) = sub_newlines xs @ sub_newlines ys"
  using assms
proof (induction xs rule: sub_newlines.induct)
  case 1
  then show ?case by simp
next
  case (2 c cs)
  let ?P = "\<lambda>x. x = (10::nat)"
  have run: "c = 10 \<Longrightarrow> takeWhile ?P (cs @ ys) = takeWhile ?P cs
      \<and> dropWhile ?P (cs @ ys) = dropWhile ?P cs @ ys"
  proof -
    assume c: "c = 10"
    show ?thesis
    proof (cases "\<forall>x \<in> set cs. x = 10")
      case all: True
      have "last (c # cs) \<in> set (c # cs)" by (rule last_in_set) simp
      with all c have "last (c # cs) = 10" by auto
      with "2.prems" have ys: "ys = [] \<or> hd ys \<noteq> 10" by auto
      then have y: "takeWhile ?P ys = []" "dropWhile ?P ys = ys"
        by (auto simp: takeWhile_eq_Nil_iff dropWhile_eq_self_iff)
      have t: "takeWhile ?P cs = cs" "dropWhile ?P cs = []" using all by simp_all
      have "takeWhile ?P (cs @ ys) = cs @ takeWhile ?P ys" "dropWhile ?P (cs @ ys) = dropWhile ?P ys"
        using all by (simp_all add: takeWhile_append dropWhile_append)
      then show ?thesis by (simp add: y t)
    next
      case False
      then obtain x where x: "x \<in> set cs" "\<not> ?P x" by blast
      have "takeWhile ?P (cs @ ys) = takeWhile ?P cs"
        using x by (rule takeWhile_append1)
      moreover have "dropWhile ?P (cs @ ys) = dropWhile ?P cs @ ys"
        using x by (rule dropWhile_append1)
      ultimately show ?thesis by blast
    qed
  qed
  show ?case
  proof (cases "c = 10 \<and> 2 \<le> length (takeWhile ?P cs)")
    case True
    then have tk: "takeWhile ?P (cs @ ys) = takeWhile ?P cs"
      and dr: "dropWhile ?P (cs @ ys) = dropWhile ?P cs @ ys"
      using run by simp_all
    have cond: "dropWhile ?P cs = [] \<or> ys = [] \<or> \<not> (last (dropWhile ?P cs) = 10 \<and> hd ys = 10)"
    proof (cases "dropWhile ?P cs = []")
      case True
      then show ?thesis by simp
    next
      case ne: False
      then have "cs \<noteq> []" by auto
      then have "last (dropWhile ?P cs) = last (c # cs)"
        using last_dropWhile [OF ne] by simp
      with "2.prems" show ?thesis by auto
    qed
    from "2.IH"(1) [OF True cond] True tk dr show ?thesis by simp
  next
    case False
    have cond: "cs = [] \<or> ys = [] \<or> \<not> (last cs = 10 \<and> hd ys = 10)"
      using "2.prems" by (cases "cs = []") auto
    have "\<not> (c = 10 \<and> 2 \<le> length (takeWhile ?P (cs @ ys)))"
      using False run by auto
    with "2.IH"(2) [OF False cond] False show ?thesis by auto
  qed
qed


lemma hd_sub_blanks:
  "ys \<noteq> [] \<Longrightarrow> sub_blanks ys \<noteq> [] \<and> hd (sub_blanks ys) = (if blank (hd ys) then 32 else hd ys)"
  by (cases ys) auto

lemma last_sub_blanks:
  "xs \<noteq> [] \<Longrightarrow> sub_blanks xs \<noteq> [] \<and> last (sub_blanks xs) = (if blank (last xs) then 32 else last xs)"
proof (induction xs rule: sub_blanks.induct)
  case 1
  then show ?case by simp
next
  case (2 c cs)
  show ?case
  proof (cases "blank c")
    case True
    show ?thesis
    proof (cases "dropWhile blank cs = []")
      case e: True
      then have all: "\<forall>x \<in> set cs. blank x" by simp
      have "last (c # cs) \<in> set (c # cs)" by (rule last_in_set) simp
      with all True have "blank (last (c # cs))" by auto
      then show ?thesis using True by (simp add: e)
    next
      case ne: False
      then have "cs \<noteq> []" by auto
      then have l: "last (dropWhile blank cs) = last (c # cs)"
        using last_dropWhile [OF ne] by simp
      from "2.IH"(1) [OF True ne] have "sub_blanks (dropWhile blank cs) \<noteq> []"
        and "last (sub_blanks (dropWhile blank cs))
          = (if blank (last (dropWhile blank cs)) then 32 else last (dropWhile blank cs))"
        by simp_all
      then show ?thesis using True unfolding l by simp
    qed
  next
    case False
    show ?thesis
    proof (cases "cs = []")
      case True
      with False show ?thesis by simp
    next
      case ne: False
      from "2.IH"(2) [OF False ne] False ne show ?thesis by simp
    qed
  qed
qed

lemma replace_cr_ends:
  "xs \<noteq> [] \<Longrightarrow> replace_cr xs \<noteq> [] \<and> hd (replace_cr xs) = (if hd xs = 13 then 10 else hd xs)
     \<and> last (replace_cr xs) = (if last xs = 13 then 10 else last xs)"
  by (simp add: replace_cr_def hd_map last_map)

lemma core_append:
  assumes "xs = [] \<or> ys = []
     \<or> (\<not> (blank (last xs) \<and> blank (hd ys))
        \<and> \<not> ((last xs = 10 \<or> last xs = 13) \<and> (hd ys = 10 \<or> hd ys = 13)))"
  shows "sub_newlines (sub_blanks (replace_cr (xs @ ys)))
     = sub_newlines (sub_blanks (replace_cr xs)) @ sub_newlines (sub_blanks (replace_cr ys))"
proof (cases "xs = [] \<or> ys = []")
  case True
  then show ?thesis by (auto simp: replace_cr_def)
next
  case False
  then have ne: "xs \<noteq> []" "ys \<noteq> []" by simp_all
  let ?X = "replace_cr xs" and ?Y = "replace_cr ys"
  note X = replace_cr_ends [OF ne(1)] and Y = replace_cr_ends [OF ne(2)]
  have bl: "\<not> (blank (last ?X) \<and> blank (hd ?Y))"
    using assms False X Y by (auto simp: blank_def)
  have 1: "sub_blanks (?X @ ?Y) = sub_blanks ?X @ sub_blanks ?Y"
    by (rule sub_blanks_append) (use bl in simp)
  have Xn: "?X \<noteq> []" and Yn: "?Y \<noteq> []" using X Y by simp_all
  have "\<not> (last (sub_blanks ?X) = 10 \<and> hd (sub_blanks ?Y) = 10)"
    using assms False X Y last_sub_blanks [OF Xn] hd_sub_blanks [OF Yn]
    by (auto simp: blank_def split: if_splits)
  then have 2: "sub_newlines (sub_blanks ?X @ sub_blanks ?Y)
      = sub_newlines (sub_blanks ?X) @ sub_newlines (sub_blanks ?Y)"
    by (intro sub_newlines_append) simp
  show ?thesis
    by (simp only: replace_cr_append 1 2)
qed

lemma core_single:
  "\<not> blank c \<Longrightarrow> c \<noteq> 10 \<Longrightarrow> c \<noteq> 13 \<Longrightarrow> sub_newlines (sub_blanks (replace_cr [c])) = [c]"
  by (simp add: replace_cr_def)

lemma core_line_run:
  assumes "\<forall>c \<in> set ns. c = 10 \<or> c = 13"
  shows "sub_newlines (sub_blanks (replace_cr ns)) = replicate (min (length ns) 2) 10"
proof -
  have "sub_newlines (sub_blanks (replace_cr (ns @ [0])))
      = sub_newlines (sub_blanks (replace_cr ns)) @ sub_newlines (sub_blanks (replace_cr [0]))"
    by (rule core_append) (simp add: blank_def)
  then have 1: "sub_newlines (sub_blanks (replace_cr (ns @ [0])))
      = sub_newlines (sub_blanks (replace_cr ns)) @ [0]"
    by (simp add: core_single blank_def)
  have r: "replace_cr (ns @ [0]) = replicate (length ns) 10 @ [0]"
    using replace_cr_newlines [OF assms] by (simp add: replace_cr_append) (simp add: replace_cr_def)
  have "sub_blanks (replicate (length ns) 10 @ [0]) = replicate (length ns) 10 @ [0]"
    by (rule sub_blanks_id) (auto simp: blank_def)
  then have 2: "sub_newlines (sub_blanks (replace_cr (ns @ [0])))
      = replicate (min (length ns) 2) 10 @ [0]"
    using sub_newlines_run [of 0 "length ns" "[]"] by (simp add: r)
  from 1 2 show ?thesis by simp
qed

lemma core_blank_run:
  assumes "bs \<noteq> []" "\<forall>c \<in> set bs. blank c"
  shows "sub_newlines (sub_blanks (replace_cr bs)) = [32]"
proof -
  have "13 \<notin> set bs" using assms(2) by (auto simp: blank_def)
  then have 1: "replace_cr bs = bs" by (rule replace_cr_id)
  obtain c cs where bs: "bs = c # cs" using assms(1) by (cases bs) auto
  have d: "dropWhile blank cs = []" using assms(2) bs by simp
  have 2: "sub_blanks bs = [32]" using assms(2) bs by (simp add: d)
  show ?thesis by (simp add: 1 2)
qed

lemma strip_law:
  assumes "\<forall>c \<in> set ws. is_space c" "\<forall>c \<in> set ws'. is_space c"
    and "r = [] \<or> (\<not> is_space (hd r) \<and> \<not> is_space (last r))"
  shows "strip (ws @ r @ ws') = r"
proof (cases "r = []")
  case True
  have d: "dropWhile is_space (ws @ ws') = []" using assms(1,2) by auto
  show ?thesis by (simp add: strip_def True d)
next
  case False
  then obtain a r' where r: "r = a # r'" by (cases r) auto
  have a: "\<not> is_space a" using assms(3) r by simp
  have "dropWhile is_space (ws @ r @ ws') = dropWhile is_space (r @ ws')"
    using assms(1) by (simp add: dropWhile_append)
  then have 1: "dropWhile is_space (ws @ r @ ws') = r @ ws'"
    using a r by simp
  obtain l where l: "rev r = l # rev (butlast r)" "l = last r"
    using False by (metis append_butlast_last_id rev.simps(2) rev_rev_ident rev_append append_Cons append_Nil)
  have nl: "\<not> is_space l" using assms(3) False l by simp
  have s2a: "dropWhile is_space (rev ws' @ rev r) = dropWhile is_space (rev r)"
    using assms(2) by (simp add: dropWhile_append)
  have s2b: "dropWhile is_space (rev r) = rev r"
    unfolding l(1) using nl by simp
  have 2: "dropWhile is_space (rev ws' @ rev r) = rev r"
    using s2a s2b by (rule trans)
  show ?thesis
    by (simp add: strip_def 1 2)
qed


lemma strip_self: "s \<noteq> [] \<Longrightarrow> \<not> is_space (hd s) \<Longrightarrow> \<not> is_space (last s) \<Longrightarrow> strip s = s"
  using strip_law [of "[]" "[]" s] by simp

lemma core_ends:
  assumes "p \<noteq> []" "\<not> is_space (hd p)" "\<not> is_space (last p)"
  shows "sub_newlines (sub_blanks (replace_cr p)) \<noteq> []"
    and "hd (sub_newlines (sub_blanks (replace_cr p))) = hd p"
    and "last (sub_newlines (sub_blanks (replace_cr p))) = last p"
proof -
  note h = not_space_simps [OF assms(2)] and l = not_space_simps [OF assms(3)]
  have "sub_newlines (sub_blanks (replace_cr ([hd p] @ tl p)))
      = sub_newlines (sub_blanks (replace_cr [hd p])) @ sub_newlines (sub_blanks (replace_cr (tl p)))"
    by (rule core_append) (use h in simp)
  then have 1: "sub_newlines (sub_blanks (replace_cr p))
      = hd p # sub_newlines (sub_blanks (replace_cr (tl p)))"
    using assms(1) h by (simp add: core_single)
  have "sub_newlines (sub_blanks (replace_cr (butlast p @ [last p])))
      = sub_newlines (sub_blanks (replace_cr (butlast p))) @ sub_newlines (sub_blanks (replace_cr [last p]))"
    by (rule core_append) (use l in simp)
  then have 2: "sub_newlines (sub_blanks (replace_cr p))
      = sub_newlines (sub_blanks (replace_cr (butlast p))) @ [last p]"
    using assms(1) l by (simp add: core_single)
  show "sub_newlines (sub_blanks (replace_cr p)) \<noteq> []" using 1 by simp
  show "hd (sub_newlines (sub_blanks (replace_cr p))) = hd p" using 1 by simp
  show "last (sub_newlines (sub_blanks (replace_cr p))) = last p" using 2 by simp
qed

lemma normalize_unchanged_core:
  assumes "p \<noteq> []" "\<not> is_space (hd p)" "\<not> is_space (last p)"
  shows "normalize_whitespace p = sub_newlines (sub_blanks (replace_cr p))"
  unfolding normalize_whitespace_def
  using core_ends [OF assms] assms(2,3) by (intro strip_self) simp_all

lemma normalize_between:
  assumes p: "p \<noteq> []" "\<not> is_space (hd p)" "\<not> is_space (last p)"
    and q: "q \<noteq> []" "\<not> is_space (hd q)" "\<not> is_space (last q)"
  shows "normalize_whitespace (p @ g @ q)
     = normalize_whitespace p @ sub_newlines (sub_blanks (replace_cr g)) @ normalize_whitespace q"
proof -
  let ?N = "\<lambda>s. sub_newlines (sub_blanks (replace_cr s))"
  note lp = not_space_simps [OF p(3)] and hq = not_space_simps [OF q(2)]
  have 1: "?N (p @ g @ q) = ?N p @ ?N (g @ q)"
    by (rule core_append) (use lp in simp)
  have 2: "?N (g @ q) = ?N g @ ?N q"
    by (rule core_append) (use hq in simp)
  have ne: "p @ g @ q \<noteq> []" using p(1) by simp
  have h: "hd (p @ g @ q) = hd p" using p(1) by simp
  have l: "last (p @ g @ q) = last q" using q(1) by simp
  have "normalize_whitespace (p @ g @ q) = ?N (p @ g @ q)"
    by (rule normalize_unchanged_core) (use ne h l p(2) q(3) in simp_all)
  then show ?thesis
    by (simp only: 1 2 normalize_unchanged_core [OF p] normalize_unchanged_core [OF q])
qed

lemma core_spaces:
  assumes "\<forall>c \<in> set ws. is_space c"
  shows "\<forall>c \<in> set (sub_newlines (sub_blanks (replace_cr ws))). is_space c"
proof
  fix c assume "c \<in> set (sub_newlines (sub_blanks (replace_cr ws)))"
  then have "c \<in> set (sub_blanks (replace_cr ws))" using set_sub_newlines by blast
  then have "c = 32 \<or> c \<in> set (replace_cr ws)" using set_sub_blanks by blast
  then have "c = 32 \<or> c = 10 \<or> c \<in> set ws" by (auto simp: replace_cr_def split: if_splits)
  with assms show "is_space c" by (auto simp: is_space_def)
qed

lemma normalize_surrounded:
  assumes "\<forall>c \<in> set ws. is_space c" "\<forall>c \<in> set ws'. is_space c"
    and "p = [] \<or> (\<not> is_space (hd p) \<and> \<not> is_space (last p))"
  shows "normalize_whitespace (ws @ p @ ws') = normalize_whitespace p"
proof (cases "p = []")
  case True
  have "\<forall>c \<in> set (ws @ ws'). is_space c" using assms(1,2) by auto
  from core_spaces [OF this]
  have "strip ([] @ [] @ sub_newlines (sub_blanks (replace_cr (ws @ ws')))) = []"
    by (intro strip_law) simp_all
  then show ?thesis using True by (simp add: normalize_whitespace_def strip_def replace_cr_def)
next
  case False
  let ?N = "\<lambda>s. sub_newlines (sub_blanks (replace_cr s))"
  have p: "p \<noteq> []" "\<not> is_space (hd p)" "\<not> is_space (last p)" using False assms(3) by simp_all
  note hp = not_space_simps [OF p(2)] and lp = not_space_simps [OF p(3)]
  have 1: "?N (ws @ p @ ws') = ?N ws @ ?N (p @ ws')"
    by (rule core_append) (use p(1) hp in simp)
  have 2: "?N (p @ ws') = ?N p @ ?N ws'"
    by (rule core_append) (use lp in simp)
  have "strip (?N ws @ ?N p @ ?N ws') = ?N p"
    using core_spaces [OF assms(1)] core_spaces [OF assms(2)] core_ends [OF p] p(2,3)
    by (intro strip_law) simp_all
  then show ?thesis
    by (simp add: normalize_whitespace_def 1 2 normalize_unchanged_core [OF p, unfolded normalize_whitespace_def])
qed

text \<open>
  Claim C3, amended. \<open>normalize_whitespace\<close> replaces every carriage return by a newline,
  character by character, then collapses every run of spaces and tabs to one space and
  every run of three or more newlines to exactly two, and removes leading and trailing
  whitespace. So its result has no carriage return and no tab, no two spaces in a row, no
  three newlines in a row, and no whitespace at either end; the characters that are not
  whitespace are kept, in their order; a run of \<open>n\<close> carriage returns and newlines between
  two such characters becomes \<open>min n 2\<close> newlines (two for \<^verbatim>\<open>\r\n\<close>), and a run of spaces and
  tabs between them becomes one space.

  For every text the result is fixed by the following laws. The result is the text after the
  three substitutions, stripped. The substitutions work run by run: the substituted text
  of \<open>xs @ ys\<close> is that of \<open>xs\<close> followed by that of \<open>ys\<close> unless the cut falls inside a run of
  spaces and tabs or inside a run of carriage returns and newlines; a run of \<open>n\<close> carriage
  returns and newlines becomes \<open>min n 2\<close> newlines; a run of spaces and tabs becomes one
  space; any other character stays. Stripping whitespace from around a text that is empty
  or has no whitespace at its ends gives that text. Hence between two texts \<open>p\<close> and \<open>q\<close> that
  begin and end with a character that is not whitespace, any text \<open>g\<close> is replaced by its
  substituted text, and whitespace around such a text is removed.
\<close>

theorem normalize_whitespace_result:
  "13 \<notin> set (normalize_whitespace text) \<and> 9 \<notin> set (normalize_whitespace text)
   \<and> (\<forall>xs ys. normalize_whitespace text \<noteq> xs @ [32, 32] @ ys)
   \<and> (\<forall>xs ys. normalize_whitespace text \<noteq> xs @ [10, 10, 10] @ ys)
   \<and> (normalize_whitespace text \<noteq> [] \<longrightarrow>
        \<not> is_space (hd (normalize_whitespace text)) \<and> \<not> is_space (last (normalize_whitespace text)))
   \<and> filter (\<lambda>c. \<not> is_space c) (normalize_whitespace text) = filter (\<lambda>c. \<not> is_space c) text
   \<and> (\<not> is_space a \<and> \<not> is_space b \<and> (\<forall>c \<in> set ns. c = 10 \<or> c = 13) \<longrightarrow>
        normalize_whitespace (a # ns @ [b]) = a # replicate (min (length ns) 2) 10 @ [b])
   \<and> (\<not> is_space a \<and> \<not> is_space b \<and> bs \<noteq> [] \<and> (\<forall>c \<in> set bs. blank c) \<longrightarrow>
        normalize_whitespace (a # bs @ [b]) = [a, 32, b])
   \<and> normalize_whitespace text = strip (sub_newlines (sub_blanks (replace_cr text)))
   \<and> (xs = [] \<or> ys = []
        \<or> (\<not> (blank (last xs) \<and> blank (hd ys))
           \<and> \<not> ((last xs = 10 \<or> last xs = 13) \<and> (hd ys = 10 \<or> hd ys = 13))) \<longrightarrow>
        sub_newlines (sub_blanks (replace_cr (xs @ ys)))
          = sub_newlines (sub_blanks (replace_cr xs)) @ sub_newlines (sub_blanks (replace_cr ys)))
   \<and> ((\<forall>c \<in> set ns. c = 10 \<or> c = 13) \<longrightarrow>
        sub_newlines (sub_blanks (replace_cr ns)) = replicate (min (length ns) 2) 10)
   \<and> (bs \<noteq> [] \<and> (\<forall>c \<in> set bs. blank c) \<longrightarrow>
        sub_newlines (sub_blanks (replace_cr bs)) = [32])
   \<and> (\<not> blank d \<and> d \<noteq> 10 \<and> d \<noteq> 13 \<longrightarrow> sub_newlines (sub_blanks (replace_cr [d])) = [d])
   \<and> ((\<forall>c \<in> set ws. is_space c) \<and> (\<forall>c \<in> set ws'. is_space c)
        \<and> (r = [] \<or> (\<not> is_space (hd r) \<and> \<not> is_space (last r))) \<longrightarrow>
        strip (ws @ r @ ws') = r)
   \<and> (p \<noteq> [] \<and> \<not> is_space (hd p) \<and> \<not> is_space (last p)
        \<and> q \<noteq> [] \<and> \<not> is_space (hd q) \<and> \<not> is_space (last q) \<longrightarrow>
        normalize_whitespace (p @ g @ q)
          = normalize_whitespace p @ sub_newlines (sub_blanks (replace_cr g)) @ normalize_whitespace q)
   \<and> ((\<forall>c \<in> set ws. is_space c) \<and> (\<forall>c \<in> set ws'. is_space c)
        \<and> (r = [] \<or> (\<not> is_space (hd r) \<and> \<not> is_space (last r))) \<longrightarrow>
        normalize_whitespace (ws @ r @ ws') = normalize_whitespace r)"
proof -
  have ends: "normalize_whitespace text \<noteq> [] \<longrightarrow>
        \<not> is_space (hd (normalize_whitespace text)) \<and> \<not> is_space (last (normalize_whitespace text))"
    using strip_ends [of "sub_newlines (sub_blanks (replace_cr text))"]
    unfolding normalize_whitespace_def by blast
  have pair: "\<forall>xs ys. normalize_whitespace text \<noteq> xs @ [32, 32] @ ys"
    using normalize_no_pair [of "text"] by simp
  have triple: "\<forall>xs ys. normalize_whitespace text \<noteq> xs @ [10, 10, 10] @ ys"
    using normalize_no_triple [of "text"] by simp
  have nl: "\<not> is_space a \<and> \<not> is_space b \<and> (\<forall>c \<in> set ns. c = 10 \<or> c = 13) \<longrightarrow>
        normalize_whitespace (a # ns @ [b]) = a # replicate (min (length ns) 2) 10 @ [b]"
    using normalize_newline_run by blast
  have bl: "\<not> is_space a \<and> \<not> is_space b \<and> bs \<noteq> [] \<and> (\<forall>c \<in> set bs. blank c) \<longrightarrow>
        normalize_whitespace (a # bs @ [b]) = [a, 32, b]"
    using normalize_blank_run by blast
  have comp: "normalize_whitespace text = strip (sub_newlines (sub_blanks (replace_cr text)))"
    by (simp add: normalize_whitespace_def)
  have app: "xs = [] \<or> ys = []
        \<or> (\<not> (blank (last xs) \<and> blank (hd ys))
           \<and> \<not> ((last xs = 10 \<or> last xs = 13) \<and> (hd ys = 10 \<or> hd ys = 13))) \<longrightarrow>
        sub_newlines (sub_blanks (replace_cr (xs @ ys)))
          = sub_newlines (sub_blanks (replace_cr xs)) @ sub_newlines (sub_blanks (replace_cr ys))"
    using core_append [of xs ys] by (intro impI)
  have line: "(\<forall>c \<in> set ns. c = 10 \<or> c = 13) \<longrightarrow>
        sub_newlines (sub_blanks (replace_cr ns)) = replicate (min (length ns) 2) 10"
    using core_line_run [of ns] by (intro impI)
  have blanks: "bs \<noteq> [] \<and> (\<forall>c \<in> set bs. blank c) \<longrightarrow>
        sub_newlines (sub_blanks (replace_cr bs)) = [32]"
    using core_blank_run [of bs] by (intro impI) (elim conjE)
  have single: "\<not> blank d \<and> d \<noteq> 10 \<and> d \<noteq> 13 \<longrightarrow> sub_newlines (sub_blanks (replace_cr [d])) = [d]"
    using core_single [of d] by (intro impI) (elim conjE)
  have stripped: "(\<forall>c \<in> set ws. is_space c) \<and> (\<forall>c \<in> set ws'. is_space c)
        \<and> (r = [] \<or> (\<not> is_space (hd r) \<and> \<not> is_space (last r))) \<longrightarrow>
        strip (ws @ r @ ws') = r"
    using strip_law [of ws ws' r] by (intro impI) (elim conjE)
  have between: "p \<noteq> [] \<and> \<not> is_space (hd p) \<and> \<not> is_space (last p)
        \<and> q \<noteq> [] \<and> \<not> is_space (hd q) \<and> \<not> is_space (last q) \<longrightarrow>
        normalize_whitespace (p @ g @ q)
          = normalize_whitespace p @ sub_newlines (sub_blanks (replace_cr g)) @ normalize_whitespace q"
    using normalize_between [of p q g] by (intro impI) (elim conjE)
  have around: "(\<forall>c \<in> set ws. is_space c) \<and> (\<forall>c \<in> set ws'. is_space c)
        \<and> (r = [] \<or> (\<not> is_space (hd r) \<and> \<not> is_space (last r))) \<longrightarrow>
        normalize_whitespace (ws @ r @ ws') = normalize_whitespace r"
    using normalize_surrounded [of ws ws' r] by (intro impI) (elim conjE)
  from normalize_no_cr_tab [of "text"] pair triple ends normalize_keeps [of "text"] nl bl
    comp app line blanks single stripped between around
  show ?thesis by (intro conjI)
qed

theorem normalize_whitespace_result_witness:
  "normalize_whitespace [32, 97, 13, 10, 13, 10, 98, 32, 9, 32, 99, 13] = [97, 10, 10, 98, 32, 99]
   \<and> \<not> is_space (hd (normalize_whitespace [32, 97, 13, 10, 13, 10, 98, 32, 9, 32, 99, 13]))
   \<and> \<not> is_space (last (normalize_whitespace [32, 97, 13, 10, 13, 10, 98, 32, 9, 32, 99, 13]))
   \<and> normalize_whitespace (97 # [13, 10] @ [98]) = 97 # replicate (min (length [13, 10::nat]) 2) 10 @ [98]
   \<and> normalize_whitespace (97 # [32, 9, 32] @ [98]) = [97, 32, 98]
   \<and> normalize_whitespace ([97, 98] @ [32] @ [99, 100])
       = normalize_whitespace [97, 98] @ sub_newlines (sub_blanks (replace_cr [32]))
         @ normalize_whitespace [99, 100]
   \<and> normalize_whitespace [97, 98, 32, 99, 100] = [97, 98, 32, 99, 100]"
proof -
  have v: "normalize_whitespace [32, 97, 13, 10, 13, 10, 98, 32, 9, 32, 99, 13] = [97, 10, 10, 98, 32, 99]"
    by (simp add: normalize_whitespace_def replace_cr_def blank_def strip_def is_space_def)
  then have ne: "normalize_whitespace [32, 97, 13, 10, 13, 10, 98, 32, 9, 32, 99, 13] \<noteq> []"
    by simp
  have sp: "\<not> is_space 97 \<and> \<not> is_space 98 \<and> (\<forall>c \<in> set [13, 10::nat]. c = 10 \<or> c = 13)"
    by (simp add: is_space_def)
  have bl: "\<not> is_space 97 \<and> \<not> is_space 98 \<and> [32, 9, 32::nat] \<noteq> [] \<and> (\<forall>c \<in> set [32, 9, 32]. blank c)"
    by (simp add: is_space_def blank_def)
  have pq: "[97, 98::nat] \<noteq> [] \<and> \<not> is_space (hd [97, 98]) \<and> \<not> is_space (last [97, 98])
      \<and> [99, 100::nat] \<noteq> [] \<and> \<not> is_space (hd [99, 100]) \<and> \<not> is_space (last [99, 100])"
    by (simp add: is_space_def)
  note t = normalize_whitespace_result [of "[32, 97, 13, 10, 13, 10, 98, 32, 9, 32, 99, 13]"
      97 98 "[13, 10]" "[32, 9, 32]"]
  note u = normalize_whitespace_result [where p = "[97, 98]" and g = "[32]" and q = "[99, 100]"]
  have 1: "\<not> is_space (hd (normalize_whitespace [32, 97, 13, 10, 13, 10, 98, 32, 9, 32, 99, 13]))
      \<and> \<not> is_space (last (normalize_whitespace [32, 97, 13, 10, 13, 10, 98, 32, 9, 32, 99, 13]))"
    by (rule t [THEN conjunct2, THEN conjunct2, THEN conjunct2, THEN conjunct2, THEN conjunct1, THEN mp, OF ne])
  have 2: "normalize_whitespace (97 # [13, 10] @ [98])
      = 97 # replicate (min (length [13, 10::nat]) 2) 10 @ [98]"
    by (rule t [THEN conjunct2, THEN conjunct2, THEN conjunct2, THEN conjunct2, THEN conjunct2, THEN conjunct2, THEN conjunct1, THEN mp, OF sp])
  have 3: "normalize_whitespace (97 # [32, 9, 32] @ [98]) = [97, 32, 98]"
    by (rule t [THEN conjunct2, THEN conjunct2, THEN conjunct2, THEN conjunct2, THEN conjunct2, THEN conjunct2, THEN conjunct2, THEN conjunct1, THEN mp, OF bl])
  have 4: "normalize_whitespace ([97, 98] @ [32] @ [99, 100])
       = normalize_whitespace [97, 98] @ sub_newlines (sub_blanks (replace_cr [32]))
         @ normalize_whitespace [99, 100]"
    by (rule u [THEN conjunct2, THEN conjunct2, THEN conjunct2, THEN conjunct2, THEN conjunct2, THEN conjunct2, THEN conjunct2, THEN conjunct2, THEN conjunct2, THEN conjunct2, THEN conjunct2, THEN conjunct2, THEN conjunct2, THEN conjunct2, THEN conjunct1, THEN mp, OF pq])
  have 5: "normalize_whitespace [97, 98, 32, 99, 100] = [97, 98, 32, 99, 100]"
    by (simp add: normalize_whitespace_def replace_cr_def blank_def strip_def is_space_def)
  from v 1 [THEN conjunct1] 1 [THEN conjunct2] 2 3 4 5 show ?thesis by (intro conjI)
qed

end
